theory Spec2Isabelle
  imports Complex_Main "HOL-Library.Signed_Division" "HOL-Library.Monad_Syntax"
begin

section \<open>Single-precision values\<close>

text \<open>
  The benchmark computes on C \<open>float\<close> values. The model keeps the IEEE-754 special
  values and the sign of zero, which decide how \<open>verifyResults\<close> classifies an entry,
  and represents every other value by the rational number it denotes. Rounding and
  overflow of finite results are not represented: a finite operation returns its exact
  rational result. The closed evaluations below use inputs on which binary32 and
  binary64 arithmetic are exact as well.
\<close>

datatype fp = Fin rat | NegZero | PInf | NInf | NaN

text \<open>\<open>Fin 0\<close> is the positive zero, \<open>NegZero\<close> the negative one.\<close>

fun sign_bit :: "fp \<Rightarrow> bool" where
  "sign_bit (Fin q) = (q < 0)"
| "sign_bit NegZero = True"
| "sign_bit PInf = False"
| "sign_bit NInf = True"
| "sign_bit NaN = False"

fun magnitude :: "fp \<Rightarrow> rat" where
  "magnitude (Fin q) = q"
| "magnitude x = 0"

definition is_inf :: "fp \<Rightarrow> bool" where
  "is_inf x = (x = PInf \<or> x = NInf)"

definition is_zero :: "fp \<Rightarrow> bool" where
  "is_zero x = (x = Fin 0 \<or> x = NegZero)"

definition zero_of :: "bool \<Rightarrow> fp" where
  "zero_of negative = (if negative then NegZero else Fin 0)"

definition inf_of :: "bool \<Rightarrow> fp" where
  "inf_of negative = (if negative then NInf else PInf)"

text \<open>
  The C operators \<open>+\<close>, \<open>-\<close>, \<open>*\<close>, \<open>/\<close>, \<open>fabs\<close> and the comparisons, with the
  IEEE-754 rules for NaN, the infinities and the zeros (round to nearest: \<open>x - x\<close> is
  the positive zero; every comparison with a NaN is false).
\<close>

instantiation fp :: "{zero, plus, uminus, minus, times, inverse, abs, ord}"
begin

definition zero_fp :: fp where
  "zero_fp = Fin 0"

fun uminus_fp :: "fp \<Rightarrow> fp" where
  "uminus_fp (Fin q) = (if q = 0 then NegZero else Fin (- q))"
| "uminus_fp NegZero = Fin 0"
| "uminus_fp PInf = NInf"
| "uminus_fp NInf = PInf"
| "uminus_fp NaN = NaN"

definition plus_fp :: "fp \<Rightarrow> fp \<Rightarrow> fp" where
  "plus_fp x y =
     (if x = NaN \<or> y = NaN then NaN
      else if is_inf x then (if is_inf y \<and> x \<noteq> y then NaN else x)
      else if is_inf y then y
      else if x = NegZero \<and> y = NegZero then NegZero
      else Fin (magnitude x + magnitude y))"

definition minus_fp :: "fp \<Rightarrow> fp \<Rightarrow> fp" where
  "minus_fp x y = x + (- y)"

definition times_fp :: "fp \<Rightarrow> fp \<Rightarrow> fp" where
  "times_fp x y =
     (if x = NaN \<or> y = NaN then NaN
      else if is_inf x \<or> is_inf y
        then (if is_zero x \<or> is_zero y then NaN else inf_of (sign_bit x \<noteq> sign_bit y))
      else if is_zero x \<or> is_zero y then zero_of (sign_bit x \<noteq> sign_bit y)
      else Fin (magnitude x * magnitude y))"

definition divide_fp :: "fp \<Rightarrow> fp \<Rightarrow> fp" where
  "divide_fp x y =
     (if x = NaN \<or> y = NaN then NaN
      else if is_inf x then (if is_inf y then NaN else inf_of (sign_bit x \<noteq> sign_bit y))
      else if is_inf y then zero_of (sign_bit x \<noteq> sign_bit y)
      else if is_zero y then (if is_zero x then NaN else inf_of (sign_bit x \<noteq> sign_bit y))
      else if is_zero x then zero_of (sign_bit x \<noteq> sign_bit y)
      else Fin (magnitude x / magnitude y))"

definition inverse_fp :: "fp \<Rightarrow> fp" where
  "inverse_fp x = divide (Fin 1) x"

fun abs_fp :: "fp \<Rightarrow> fp" where
  "abs_fp (Fin q) = Fin \<bar>q\<bar>"
| "abs_fp NegZero = Fin 0"
| "abs_fp PInf = PInf"
| "abs_fp NInf = PInf"
| "abs_fp NaN = NaN"

definition less_fp :: "fp \<Rightarrow> fp \<Rightarrow> bool" where
  "less_fp x y =
     (x \<noteq> NaN \<and> y \<noteq> NaN \<and>
      (if x = NInf then y \<noteq> NInf
       else if y = PInf then x \<noteq> PInf
       else if x = PInf \<or> y = NInf then False
       else magnitude x < magnitude y))"

definition less_eq_fp :: "fp \<Rightarrow> fp \<Rightarrow> bool" where
  "less_eq_fp x y =
     (x \<noteq> NaN \<and> y \<noteq> NaN \<and>
      (if x = NInf \<or> y = PInf then True
       else if x = PInf \<or> y = NInf then False
       else magnitude x \<le> magnitude y))"

instance ..

end

section \<open>Reference computation: \<open>spmvCpu\<close>\<close>

text \<open>
  C arrays are lists indexed by C \<open>int\<close>s. A read or write outside the array is
  undefined behaviour in C; the model returns \<open>None\<close> there. Indices are unbounded
  integers: within the loops below an index never exceeds a bound that is itself an
  \<open>int\<close> of the program.
\<close>

definition in_bounds :: "int \<Rightarrow> 'a list \<Rightarrow> bool" where
  "in_bounds i xs = (0 \<le> i \<and> i < int (length xs))"

definition idx :: "'a list \<Rightarrow> int \<Rightarrow> 'a" where
  "idx xs i = xs ! nat i"

text \<open>
  The inner loop of \<open>spmvCpu\<close>:
  \<^verbatim>\<open>for (int j=rowDelimiters[i]; j<rowDelimiters[i+1]; j++)
      { int col = cols[j]; t += val[j] * vec[col]; }\<close>
  with \<open>hi\<close> the value of \<open>rowDelimiters[i+1]\<close>, which the loop does not change.
  The arithmetic is that of the element type: the function is written for any type with
  \<open>0\<close>, \<open>+\<close> and \<open>*\<close>, and used at \<open>fp\<close>.
\<close>

function spmvRow :: "'a::{zero,plus,times} list \<Rightarrow> int list \<Rightarrow> 'a list \<Rightarrow> int \<Rightarrow> int \<Rightarrow> 'a \<Rightarrow> 'a option" where
  "spmvRow val cols vec j hi t =
     (if j < hi then
        (if in_bounds j cols \<and> in_bounds j val \<and> in_bounds (idx cols j) vec
         then spmvRow val cols vec (j + 1) hi (t + idx val j * idx vec (idx cols j))
         else None)
      else Some t)"
  by pat_completeness auto
termination
  by (relation "measure (\<lambda>(val, cols, vec, j, hi, t). nat (hi - j))") auto

text \<open>
  The outer loop:
  \<^verbatim>\<open>for (int i=0; i<dim; i++) { float t = 0; <inner loop>; out[i] = t; }\<close>
\<close>

function spmvRows :: "'a::{zero,plus,times} list \<Rightarrow> int list \<Rightarrow> int list \<Rightarrow> 'a list \<Rightarrow> int \<Rightarrow> int \<Rightarrow> 'a list \<Rightarrow> 'a list option" where
  "spmvRows val cols rowDelimiters vec dim' i out =
     (if i < dim' then
        (if in_bounds i rowDelimiters \<and> in_bounds (i + 1) rowDelimiters \<and> in_bounds i out
         then (case spmvRow val cols vec (idx rowDelimiters i) (idx rowDelimiters (i + 1)) 0 of
                 None \<Rightarrow> None
               | Some t \<Rightarrow> spmvRows val cols rowDelimiters vec dim' (i + 1) (out[nat i := t]))
         else None)
      else Some out)"
  by pat_completeness auto
termination
  by (relation "measure (\<lambda>(val, cols, rowDelimiters, vec, dim', i, out). nat (dim' - i))") auto

definition spmvCpu :: "'a::{zero,plus,times} list \<Rightarrow> int list \<Rightarrow> int list \<Rightarrow> 'a list \<Rightarrow> int \<Rightarrow> 'a list \<Rightarrow> 'a list option" where
  "spmvCpu val cols rowDelimiters vec dim' out = spmvRows val cols rowDelimiters vec dim' 0 out"

text \<open>
  The CSR invariant of the data model: \<open>rowOffsets\<close> has \<open>numRows + 1\<close> entries, starts
  at 0, is non-decreasing and ends at the number of stored entries; every column index
  is a valid index of the dense vector.
\<close>

definition CSR_invariant :: "'a list \<Rightarrow> int list \<Rightarrow> int list \<Rightarrow> int \<Rightarrow> int \<Rightarrow> bool" where
  "CSR_invariant values columnIndices rowOffsets numRows numCols =
     (0 \<le> numRows \<and> int (length rowOffsets) = numRows + 1 \<and>
      idx rowOffsets 0 = 0 \<and> sorted rowOffsets \<and>
      idx rowOffsets numRows = int (length values) \<and>
      length columnIndices = length values \<and>
      list_all (\<lambda>c. 0 \<le> c \<and> c < numCols) columnIndices)"

text \<open>The sum of row \<open>i\<close>, accumulated from 0 over the stored entries in ascending index order.\<close>

definition row_sum :: "'a::{zero,plus,times} list \<Rightarrow> int list \<Rightarrow> int list \<Rightarrow> 'a list \<Rightarrow> nat \<Rightarrow> 'a" where
  "row_sum values columnIndices rowOffsets vec i =
     foldl (\<lambda>t j. t + values ! j * vec ! nat (columnIndices ! j)) 0
       [nat (rowOffsets ! i) ..< nat (rowOffsets ! Suc i)]"

section \<open>Result verification: \<open>verifyResults\<close>\<close>

text \<open>
  \<^verbatim>\<open>#define MAX_RELATIVE_ERROR 1e-10\<close>
  (the literal denotes the double nearest to \<open>10\<^sup>-\<^sup>1\<^sup>0\<close>).
\<close>

definition MAX_RELATIVE_ERROR :: fp where
  "MAX_RELATIVE_ERROR = Fin (1 / 10 ^ 10)"

text \<open>
  The test of the loop body, with the tolerance as a parameter:
  \<^verbatim>\<open>fabs(cpuResults[i] - gpuResults[i]) / cpuResults[i] > MAX_RELATIVE_ERROR\<close>
  The divisor is the reference entry itself, not its absolute value.
\<close>

definition mismatch :: "fp \<Rightarrow> fp \<Rightarrow> fp \<Rightarrow> bool" where
  "mismatch tolerance cpu gpu = (\<bar>cpu - gpu\<bar> / cpu > tolerance)"

text \<open>
  \<^verbatim>\<open>bool passed = 1;
  for (int i=0; i<size; i++) { if (<test>) { passed = 0; } }\<close>
  (\<open>bool\<close> is \<open>typedef int bool\<close>; only 0 and 1 are assigned.) The loop does not stop at
  the first mismatch.
\<close>

function verifyLoop :: "fp \<Rightarrow> fp list \<Rightarrow> fp list \<Rightarrow> int \<Rightarrow> int \<Rightarrow> bool \<Rightarrow> bool option" where
  "verifyLoop tolerance cpuResults gpuResults size' i passed =
     (if i < size' then
        (if in_bounds i cpuResults \<and> in_bounds i gpuResults
         then verifyLoop tolerance cpuResults gpuResults size' (i + 1)
                (if mismatch tolerance (idx cpuResults i) (idx gpuResults i) then False else passed)
         else None)
      else Some passed)"
  by pat_completeness auto
termination
  by (relation "measure (\<lambda>(tolerance, cpuResults, gpuResults, size', i, passed). nat (size' - i))") auto

text \<open>
  \<open>verifyResults\<close> returns \<open>passed\<close>; the argument \<open>pass\<close> is not used by the function.
  It also prints one line, \<open>verifyResults_message\<close>. (The per-entry line under
  \<open>DEBUG_VERBOSE\<close> is compiled out.)
\<close>

definition verifyResults :: "fp list \<Rightarrow> fp list \<Rightarrow> int \<Rightarrow> int \<Rightarrow> bool option" where
  "verifyResults cpuResults gpuResults size' pass =
     verifyLoop MAX_RELATIVE_ERROR cpuResults gpuResults size' 0 True"

definition verifyResults_message :: "bool \<Rightarrow> string" where
  "verifyResults_message passed = (if passed then ''Passed!'' else ''---FAILED---'')"

text \<open>
  For comparison, the relative error of the specification, with the absolute value of
  the reference as divisor.
\<close>

definition spec_mismatch :: "fp \<Rightarrow> fp \<Rightarrow> fp \<Rightarrow> bool" where
  "spec_mismatch tolerance reference candidate =
     (\<bar>reference - candidate\<bar> / \<bar>reference\<bar> > tolerance)"

section \<open>Arithmetic on C \<open>int\<close>\<close>

text \<open>
  The \<open>int\<close> of the program has 32 bits. In the padded row count of \<open>RunTest\<close>
  (line 822) and in the ELLPACKR set-up (the row lengths of line 169 and the cell
  count \<open>maxrl * cmSize\<close> of lines 182 and 183) the exact result of an \<open>int\<close>
  operation can leave the range from \<open>INT_MIN\<close> to \<open>INT_MAX\<close>: there the model
  computes the exact result and reduces it with \<open>int32\<close> to the value that
  two's-complement arithmetic delivers. (The C standard leaves signed overflow
  undefined; the statements below about these results carry the hypothesis that the
  exact result is in range.)
\<close>

definition INT_MAX :: int where
  "INT_MAX = 2147483647"

definition INT_MIN :: int where
  "INT_MIN = - 2147483648"

definition int32 :: "int \<Rightarrow> int" where
  "int32 x = (x + 2147483648) mod 4294967296 - 2147483648"

section \<open>Padded row count in \<open>RunTest\<close>\<close>

text \<open>
  \<^verbatim>\<open>int paddedSize = numRows + (PAD_FACTOR - numRows % PAD_FACTOR);\<close>
  \<open>PAD_FACTOR\<close> is a macro of \<open>Spmv.h\<close>, which is not among the sources: it is a
  parameter here. C's \<open>%\<close> truncates towards zero (\<open>smod\<close>). The subtraction and the
  addition are \<open>int\<close> operations.
\<close>

definition paddedSize :: "int \<Rightarrow> int \<Rightarrow> int" where
  "paddedSize PAD_FACTOR numRows =
     int32 (numRows + int32 (PAD_FACTOR - numRows smod PAD_FACTOR))"

section \<open>ELLPACKR set-up in \<open>ellPackTest\<close>\<close>

text \<open>
  The host arrays of \<open>ellPackTest\<close>. \<open>new T[n]\<close> does not initialise its cells: a cell
  holds \<open>None\<close> until it is written. \<open>new\<close> with a negative count throws; the model
  returns \<open>None\<close>.
\<close>

record ellpack_host =
  h_rowLengths :: "int option list"
  maxrl :: int
  cmSize :: int
  h_valcm :: "fp option list"
  h_colscm :: "int option list"

definition new_array :: "int \<Rightarrow> 'a option list option" where
  "new_array n = (if n < 0 then None else Some (replicate (nat n) None))"

text \<open>
  \<^verbatim>\<open>int maxrl = 0;
  for (int k=0; k<numRows; k++) {
      h_rowLengths[k] = h_rowDelimiters[k+1] - h_rowDelimiters[k];
      if (h_rowLengths[k] > maxrl) { maxrl = h_rowLengths[k]; }
  }\<close>
\<close>

function rowLengthsLoop :: "int list \<Rightarrow> int \<Rightarrow> int \<Rightarrow> int option list \<Rightarrow> int \<Rightarrow> (int option list \<times> int) option" where
  "rowLengthsLoop h_rowDelimiters numRows k rowLengths maxrl' =
     (if k < numRows then
        (if in_bounds k h_rowDelimiters \<and> in_bounds (k + 1) h_rowDelimiters \<and> in_bounds k rowLengths
         then (let len = int32 (idx h_rowDelimiters (k + 1) - idx h_rowDelimiters k)
               in rowLengthsLoop h_rowDelimiters numRows (k + 1) (rowLengths[nat k := Some len])
                    (if len > maxrl' then len else maxrl'))
         else None)
      else Some (rowLengths, maxrl'))"
  by pat_completeness auto
termination
  by (relation "measure (\<lambda>(h_rowDelimiters, numRows, k, rowLengths, maxrl'). nat (numRows - k))") auto

text \<open>
  \<^verbatim>\<open>for (int p=numRows; p < paddedSize; p++) { h_rowLengths[p] = 0; }\<close>
\<close>

function padLengthsLoop :: "int \<Rightarrow> int \<Rightarrow> int option list \<Rightarrow> int option list option" where
  "padLengthsLoop padded_size p rowLengths =
     (if p < padded_size then
        (if in_bounds p rowLengths
         then padLengthsLoop padded_size (p + 1) (rowLengths[nat p := Some 0])
         else None)
      else Some rowLengths)"
  by pat_completeness auto
termination
  by (relation "measure (\<lambda>(padded_size, p, rowLengths). nat (padded_size - p))") auto

text \<open>
  Lines 165 to 183 of \<open>ellPackTest\<close>: the row lengths, their maximum, and the
  allocation of the column-major arrays,
  \<^verbatim>\<open>int cmSize = padded ? paddedSize : numRows;
  float *h_valcm = new float[maxrl * cmSize];
  int *h_colscm = new int[maxrl * cmSize];\<close>
  The product \<open>maxrl * cmSize\<close> is an \<open>int\<close> product, and so is the difference of two
  row delimiters in the loop above.
\<close>

definition ellPackSetup :: "int list \<Rightarrow> int \<Rightarrow> bool \<Rightarrow> int \<Rightarrow> ellpack_host option" where
  "ellPackSetup h_rowDelimiters numRows padded padded_size =
     (case new_array padded_size of
        None \<Rightarrow> None
      | Some rl0 \<Rightarrow>
     (case rowLengthsLoop h_rowDelimiters numRows 0 rl0 0 of
        None \<Rightarrow> None
      | Some (rl1, m) \<Rightarrow>
     (case padLengthsLoop padded_size numRows rl1 of
        None \<Rightarrow> None
      | Some rl2 \<Rightarrow>
     (let cm = (if padded then padded_size else numRows) in
      case new_array (int32 (m * cm)) of
        None \<Rightarrow> None
      | Some valcm \<Rightarrow>
     (case new_array (int32 (m * cm)) of
        None \<Rightarrow> None
      | Some colscm \<Rightarrow>
          Some \<lparr>h_rowLengths = rl2, maxrl = m, cmSize = cm, h_valcm = valcm, h_colscm = colscm\<rparr>)))))"

text \<open>
  Modelled from the spec: \<open>convertToColMajor\<close>, which \<open>ellPackTest\<close> calls on the
  arrays just allocated (lines 184 and 185) and which is not among the sources. The
  specification (section 4, \<open>toELLPACKR\<close>) says: for each row, entries are copied into
  increasing slot positions \<open>0..rowLength[i]-1\<close>, in column-major layout; all unfilled
  slots are initialised to 0 value and 0 column index. The element of row \<open>r\<close> and
  slot \<open>k\<close> lives at the linear index \<open>k * rows + r\<close>, where \<open>rows\<close> is the number of
  rows of the arrays: \<open>cmSize\<close> in \<open>ellPackTest\<close>.

  \<open>colMajorSource\<close> gives, for a linear index, the index of the CSR entry copied
  there, or \<open>None\<close> for an unfilled slot.
\<close>

definition colMajorSource :: "int list \<Rightarrow> int \<Rightarrow> int \<Rightarrow> nat \<Rightarrow> int option" where
  "colMajorSource h_rowDelimiters numRows rows p =
     (let r = int p mod rows; k = int p div rows in
      if r < numRows \<and> k < idx h_rowDelimiters (r + 1) - idx h_rowDelimiters r
      then Some (idx h_rowDelimiters r + k) else None)"

definition convertToColMajor :: "fp list \<Rightarrow> int list \<Rightarrow> int \<Rightarrow> int list \<Rightarrow> ellpack_host \<Rightarrow> ellpack_host" where
  "convertToColMajor h_val h_cols numRows h_rowDelimiters h =
     h\<lparr>h_valcm := map (\<lambda>p. case colMajorSource h_rowDelimiters numRows (cmSize h) p of
                            None \<Rightarrow> Some 0 | Some j \<Rightarrow> Some (idx h_val j))
                     [0 ..< length (h_valcm h)],
       h_colscm := map (\<lambda>p. case colMajorSource h_rowDelimiters numRows (cmSize h) p of
                            None \<Rightarrow> Some 0 | Some j \<Rightarrow> Some (idx h_cols j))
                     [0 ..< length (h_colscm h)]\<rparr>"

text \<open>
  Lines 165 to 185 of \<open>ellPackTest\<close>: the set-up above, followed by the call of
  \<open>convertToColMajor\<close>.
\<close>

definition ellPackHostData :: "fp list \<Rightarrow> int list \<Rightarrow> int list \<Rightarrow> int \<Rightarrow> bool \<Rightarrow> int \<Rightarrow> ellpack_host option" where
  "ellPackHostData h_val h_cols h_rowDelimiters numRows padded padded_size =
     (case ellPackSetup h_rowDelimiters numRows padded padded_size of
        None \<Rightarrow> None
      | Some h \<Rightarrow> Some (convertToColMajor h_val h_cols numRows h_rowDelimiters h))"

section \<open>The benchmark runs: \<open>csrTest\<close>, \<open>ellPackTest\<close> and \<open>RunTest\<close>\<close>

text \<open>
  The test functions act on the OpenCL device, the result database and standard
  output. The model records these actions, in order, as a trace of events. Sizes are
  element counts (the source multiplies them by \<open>sizeof\<close>).
\<close>

datatype resource =
    Program | Kernel_csrScalar | Kernel_csrVector | Kernel_ellpackr
  | Mem_d_val | Mem_d_cols | Mem_d_vec | Mem_d_out | Mem_d_rowDelimiters | Mem_d_rowLengths
  | Host_h_rowLengths | Host_h_valcm | Host_h_colscm
  | Host_h_vec | Host_refOut | Host_h_rowDelimitersPad | Host_h_out | Host_h_val | Host_h_valPad

datatype event =
    Print string
    \<comment> \<open>a line on standard output\<close>
  | Create resource int
    \<comment> \<open>\<open>clCreateProgramWithSource\<close>, \<open>clCreateKernel\<close>, \<open>clCreateBuffer\<close>,
        \<open>clCreateImage2D\<close> or \<open>new[]\<close>, with the element count (0 where there is none)\<close>
  | Release resource
    \<comment> \<open>\<open>clReleaseProgram\<close>, \<open>clReleaseKernel\<close>, \<open>clReleaseMemObject\<close> or \<open>delete[]\<close>\<close>
  | WriteBuffer resource int
    \<comment> \<open>\<open>clEnqueueWriteBuffer\<close> or \<open>clEnqueueWriteImage\<close>\<close>
  | NDRangeKernel resource int nat
    \<comment> \<open>\<open>clEnqueueNDRangeKernel\<close>: kernel, global work size, local work size\<close>
  | ReadBuffer resource int
    \<comment> \<open>\<open>clEnqueueReadBuffer\<close> into \<open>h_out\<close>\<close>
  | VerifyResults int int
    \<comment> \<open>a call of \<open>verifyResults\<close>: size and pass\<close>
  | AddResult string "int \<times> int" string int
    \<comment> \<open>\<open>resultDB.AddResult\<close>: test name, the two numbers of the attribute string
        \<open>"%d_elements_%d_rows"\<close>, the unit, and the pass whose timings the value is
        computed from (the value itself, a quotient of timings, is not represented)\<close>

text \<open>
  What the model takes from outside: the outcome of \<open>clBuildProgram\<close>, the options
  \<open>passes\<close> and \<open>iterations\<close>, the result of \<open>getMaxWorkGroupSize\<close>, the contents of
  the device buffer \<open>d_out\<close> after the kernel runs of a pass (by test name and pass),
  and the macros \<open>BLOCK_SIZE\<close> and \<open>VECTOR_SIZE\<close> of \<open>Spmv.h\<close>. Every other OpenCL call
  is taken to succeed (\<open>CL_CHECK_ERROR\<close> is not among the sources).
\<close>

record backend =
  build_succeeds :: bool
  option_passes :: int
  option_iterations :: int
  max_work_group_size :: nat
  device_output :: "string \<Rightarrow> int \<Rightarrow> fp list"
  BLOCK_SIZE :: nat
  VECTOR_SIZE :: nat

text \<open>The state: the trace so far and the host buffer \<open>h_out\<close>.\<close>

record world =
  trace :: "event list"
  h_out :: "fp list"

definition emit :: "event list \<Rightarrow> world \<Rightarrow> world" where
  "emit es w = w\<lparr>trace := trace w @ es\<rparr>"

text \<open>The resources created and not released, in the order of their creation.\<close>

fun live_step :: "event \<Rightarrow> resource list \<Rightarrow> resource list" where
  "live_step (Create r n) rs = rs @ [r]"
| "live_step (Release r) rs = remove1 r rs"
| "live_step e rs = rs"

definition live :: "event list \<Rightarrow> resource list" where
  "live es = fold live_step es []"

text \<open>
  \<open>clEnqueueReadBuffer\<close> of \<open>n\<close> elements of \<open>d_out\<close> into \<open>h_out\<close>: the first \<open>n\<close> cells
  of the host buffer are overwritten.
\<close>

definition readBuffer :: "int \<Rightarrow> fp list \<Rightarrow> fp list \<Rightarrow> fp list option" where
  "readBuffer n device host =
     (if 0 \<le> n \<and> n \<le> int (length device) \<and> n \<le> int (length host)
      then Some (take (nat n) device @ drop (nat n) host) else None)"

text \<open>
  The events of one pass up to the verification: \<open>iters\<close> kernel launches, the read
  of \<open>d_out\<close>, the call of \<open>verifyResults\<close> and the line it prints.
\<close>

definition pass_events :: "backend \<Rightarrow> resource \<Rightarrow> int \<Rightarrow> nat \<Rightarrow> int \<Rightarrow> int \<Rightarrow> bool \<Rightarrow> event list" where
  "pass_events dev kern globalWorkSize localWorkSize numRows k passed =
     replicate (nat (option_iterations dev)) (NDRangeKernel kern globalWorkSize localWorkSize) @
     [ReadBuffer Mem_d_out numRows, VerifyResults numRows k, Print (verifyResults_message passed)]"

text \<open>
  The pass loop. The three loops of the source (CSR scalar kernel, CSR vector kernel,
  ELLPACKR kernel) have the same shape and differ in the kernel, the work sizes, the
  test name and the attributes:
  \<^verbatim>\<open>for (int k = 0; k < passes; k++) {
      for (int j = 0; j < iters; j++) { clEnqueueNDRangeKernel(...); clFinish(queue); ... }
      clEnqueueReadBuffer(queue, d_out, true, 0, numRows * sizeof(float), h_out, ...);
      if (! verifyResults(refOut, h_out, numRows, k)) { return; }
      resultDB.AddResult(testName, atts, "Gflop/s", ...);
      resultDB.AddResult(testName+"_PCIe", atts, "Gflop/s", ...);
  }\<close>
  The result is \<open>(False, w)\<close> when the function returns from inside the loop and
  \<open>(True, w)\<close> when the loop ends.
\<close>

function runPasses :: "backend \<Rightarrow> resource \<Rightarrow> int \<Rightarrow> nat \<Rightarrow> string \<Rightarrow> int \<times> int \<Rightarrow> int \<Rightarrow> fp list \<Rightarrow> int \<Rightarrow> world \<Rightarrow> (bool \<times> world) option" where
  "runPasses dev kern globalWorkSize localWorkSize testName atts numRows refOut k w =
     (if k < option_passes dev then
        (case readBuffer numRows (device_output dev testName k) (h_out w) of
           None \<Rightarrow> None
         | Some out \<Rightarrow>
            (case verifyResults refOut out numRows k of
               None \<Rightarrow> None
             | Some passed \<Rightarrow>
                (if \<not> passed
                 then Some (False,
                   emit (pass_events dev kern globalWorkSize localWorkSize numRows k passed)
                     (w\<lparr>h_out := out\<rparr>))
                 else runPasses dev kern globalWorkSize localWorkSize testName atts numRows refOut (k + 1)
                   (emit (pass_events dev kern globalWorkSize localWorkSize numRows k passed @
                          [AddResult testName atts ''Gflop/s'' k,
                           AddResult (testName @ ''_PCIe'') atts ''Gflop/s'' k])
                     (w\<lparr>h_out := out\<rparr>)))))
      else Some (True, w))"
  by pat_completeness auto
termination
  by (relation "measure (\<lambda>(dev, kern, globalWorkSize, localWorkSize, testName, atts, numRows, refOut, k, w).
        nat (option_passes dev - k))") auto

text \<open>
  \<^verbatim>\<open>localWorkSize = VECTOR_SIZE;
  while (localWorkSize+VECTOR_SIZE <= maxLocal && localWorkSize+VECTOR_SIZE <= BLOCK_SIZE)
      { localWorkSize += VECTOR_SIZE; }\<close>
  With \<open>VECTOR_SIZE = 0\<close> the loop would not end: \<open>None\<close>.
\<close>

function vectorLocalWorkSize :: "nat \<Rightarrow> nat \<Rightarrow> nat \<Rightarrow> nat \<Rightarrow> nat option" where
  "vectorLocalWorkSize vector_size block_size maxLocal localWorkSize =
     (if vector_size = 0 then None
      else if localWorkSize + vector_size \<le> maxLocal \<and> localWorkSize + vector_size \<le> block_size
      then vectorLocalWorkSize vector_size block_size maxLocal (localWorkSize + vector_size)
      else Some localWorkSize)"
  by pat_completeness auto
termination
  by (relation "measure (\<lambda>(vector_size, block_size, maxLocal, localWorkSize). block_size - localWorkSize)") auto

text \<open>
  The release sequence of \<open>csrTest\<close>, written twice in the source: before the
  \<open>return\<close> that skips the vector kernel, and at the end of the function.
\<close>

definition csrTest_releases :: "event list" where
  "csrTest_releases =
     [Release Mem_d_rowDelimiters, Release Mem_d_vec, Release Mem_d_out, Release Mem_d_val,
      Release Mem_d_cols, Release Kernel_csrScalar, Release Kernel_csrVector, Release Program]"

text \<open>
  The set-up of \<open>csrTest\<close> after a successful build: the device buffers, the transfers
  and the two kernels.
\<close>

definition csrTest_setup :: "int \<Rightarrow> int \<Rightarrow> event list" where
  "csrTest_setup numRows numNonZeroes =
     [Create Program 0,
      Create Mem_d_val numNonZeroes, Create Mem_d_cols numNonZeroes,
      Create Mem_d_vec numRows, Create Mem_d_out numRows,
      Create Mem_d_rowDelimiters (numRows + 1),
      WriteBuffer Mem_d_val numNonZeroes, WriteBuffer Mem_d_cols numNonZeroes,
      WriteBuffer Mem_d_vec numRows, WriteBuffer Mem_d_rowDelimiters (numRows + 1),
      Print ''CSR Scalar Kernel'',
      Create Kernel_csrScalar 0, Create Kernel_csrVector 0]"

text \<open>
  \<open>csrTest\<close>. The host arrays \<open>h_val\<close>, \<open>h_cols\<close>, \<open>h_rowDelimiters\<close> and \<open>h_vec\<close> are
  only copied to the device; the model keeps their sizes. The three \<open>return\<close>
  statements that leave the function early are the branches that end without
  \<open>csrTest_releases\<close>: after a failed build, and after a failed verification in either
  pass loop. The test names are \<open>prefix + "CSR-Scalar" + suffix\<close> and
  \<open>prefix + "CSR-Vector" + suffix\<close> with the suffix \<open>"-SP"\<close>.
\<close>

definition csrTest :: "backend \<Rightarrow> int \<Rightarrow> int \<Rightarrow> fp list \<Rightarrow> bool \<Rightarrow> world \<Rightarrow> world option" where
  "csrTest dev numRows numNonZeroes refOut padded w =
     (if \<not> build_succeeds dev
      then Some (emit [Create Program 0, Print ''Retsize: '', Print ''Log: ''] w)
      else do {
        let testPrefix = (if padded then ''Padded_'' else []);
        let atts = (numNonZeroes, numRows);
        (scalarDone, w2) \<leftarrow> runPasses dev Kernel_csrScalar numRows (BLOCK_SIZE dev)
            (testPrefix @ ''CSR-Scalar-SP'') atts numRows refOut 0
            (emit (csrTest_setup numRows numNonZeroes) w);
        if \<not> scalarDone then Some w2
        else do {
          let w3 = emit [WriteBuffer Mem_d_out numRows, Print ''CSR Vector Kernel''] w2;
          if max_work_group_size dev < 32
          then Some (emit ([Print ''Warning: CSRVector requires a work group size >= 32'',
                            Print ''Skipping this kernel.''] @ csrTest_releases) w3)
          else do {
            localWorkSize \<leftarrow> vectorLocalWorkSize (VECTOR_SIZE dev) (BLOCK_SIZE dev)
                (max_work_group_size dev) (VECTOR_SIZE dev);
            (vectorDone, w4) \<leftarrow> runPasses dev Kernel_csrVector (numRows * int (VECTOR_SIZE dev))
                localWorkSize (testPrefix @ ''CSR-Vector-SP'') atts numRows refOut 0 w3;
            if \<not> vectorDone then Some w4
            else Some (emit csrTest_releases w4)
          }
        }
      })"

text \<open>
  The set-up of \<open>ellPackTest\<close> after \<open>ellPackSetup\<close>: the host arrays, the device
  buffers, the transfers and the kernel.
\<close>

definition ellPackTest_setup :: "ellpack_host \<Rightarrow> int \<Rightarrow> int \<Rightarrow> event list" where
  "ellPackTest_setup h numRows padded_size =
     [Create Program 0,
      Create Host_h_rowLengths padded_size,
      Create Host_h_valcm (int32 (maxrl h * cmSize h)), Create Host_h_colscm (int32 (maxrl h * cmSize h)),
      Create Mem_d_val (int32 (maxrl h * cmSize h)), Create Mem_d_cols (int32 (maxrl h * cmSize h)),
      Create Mem_d_vec numRows, Create Mem_d_out padded_size, Create Mem_d_rowLengths (cmSize h),
      WriteBuffer Mem_d_val (int32 (maxrl h * cmSize h)), WriteBuffer Mem_d_cols (int32 (maxrl h * cmSize h)),
      WriteBuffer Mem_d_vec numRows, WriteBuffer Mem_d_rowLengths (cmSize h),
      Create Kernel_ellpackr 0]"

text \<open>
  The releases at the end of \<open>ellPackTest\<close>. Its last statement,
  \<^verbatim>\<open>delete[] h_rowLengths, h_valcm, h_colscm;\<close>
  is a comma expression: it deletes \<open>h_rowLengths\<close> only.
\<close>

definition ellPackTest_releases :: "event list" where
  "ellPackTest_releases =
     [Release Program, Release Kernel_ellpackr, Release Mem_d_rowLengths, Release Mem_d_vec,
      Release Mem_d_out, Release Mem_d_val, Release Mem_d_cols, Release Host_h_rowLengths]"

text \<open>
  \<open>ellPackTest\<close>. After the set-up of lines 165 to 185 (\<open>ellPackSetup\<close>, then
  \<open>convertToColMajor\<close>, which changes only the contents of \<open>h_valcm\<close> and
  \<open>h_colscm\<close>; no event below depends on them) the function creates and fills the
  device buffers, runs the pass loop and releases. The \<open>return\<close> after a failed
  verification ends the function without the releases.
\<close>

definition ellPackTest :: "backend \<Rightarrow> int list \<Rightarrow> int \<Rightarrow> int \<Rightarrow> fp list \<Rightarrow> bool \<Rightarrow> int \<Rightarrow> world \<Rightarrow> world option" where
  "ellPackTest dev h_rowDelimiters numRows numNonZeroes refOut padded padded_size w =
     (if \<not> build_succeeds dev
      then Some (emit [Create Program 0, Print ''Retsize: '', Print ''Log: ''] w)
      else do {
        h \<leftarrow> ellPackSetup h_rowDelimiters numRows padded padded_size;
        (finished, w2) \<leftarrow> runPasses dev Kernel_ellpackr (cmSize h) (BLOCK_SIZE dev)
            ((if padded then ''Padded_'' else []) @ ''ELLPACKR-SP'') (numNonZeroes, cmSize h)
            numRows refOut 0 (emit (ellPackTest_setup h numRows padded_size) w);
        if \<not> finished then Some w2
        else Some (emit ellPackTest_releases w2)
      })"

text \<open>
  \<open>RunTest\<close>, from the allocation of the remaining host data (line 815) on. The
  matrix \<open>h_val\<close>, \<open>h_cols\<close>, \<open>h_rowDelimiters\<close> with \<open>nItems\<close> entries and \<open>numRows\<close>
  rows, the dense vector \<open>h_vec\<close> after \<open>fill\<close>, and the entry count \<open>nItemsPadded\<close>
  that \<open>convertToPadded\<close> returns come from functions that are not among the
  sources; they are parameters. The arrays \<open>h_vec\<close>, \<open>refOut\<close> and \<open>h_out\<close> are
  allocated with \<open>new\<close>, which throws for a negative count; \<open>garbage\<close> is the content
  of a freshly allocated cell. Both branches on \<open>deviceSupportsImages\<close> make the same
  three calls. The two \<open>delete[]\<close> statements at the end are comma expressions, too.
\<close>

definition RunTest :: "backend \<Rightarrow> int \<Rightarrow> fp list \<Rightarrow> int list \<Rightarrow> int list \<Rightarrow> fp list \<Rightarrow> int \<Rightarrow> int \<Rightarrow> int \<Rightarrow> fp \<Rightarrow> world option" where
  "RunTest dev PAD_FACTOR h_val h_cols h_rowDelimiters h_vec nItems numRows nItemsPadded garbage =
     do {
       let padded_size = paddedSize PAD_FACTOR numRows;
       (h_vec0 :: fp option list) \<leftarrow> new_array numRows;
       (h_out0 :: fp option list) \<leftarrow> new_array padded_size;
       let w0 = \<lparr>trace =
           [Create Host_h_vec numRows, Create Host_refOut numRows,
            Create Host_h_rowDelimitersPad (numRows + 1), Create Host_h_out padded_size],
         h_out = replicate (nat padded_size) garbage\<rparr>;
       refOut \<leftarrow> spmvCpu h_val h_cols h_rowDelimiters h_vec numRows (replicate (nat numRows) garbage);
       w1 \<leftarrow> csrTest dev numRows nItems refOut False (emit [Print ''CSR Test''] w0);
       w2 \<leftarrow> csrTest dev numRows nItemsPadded refOut True (emit [Print ''CSR Test -- Padded Data''] w1);
       w3 \<leftarrow> ellPackTest dev h_rowDelimiters numRows nItems refOut False padded_size
               (emit [Print ''ELLPACKR Test''] w2);
       Some (emit [Release Host_h_val, Release Host_h_valPad] w3)
     }"

section \<open>Vocabulary for statements about traces\<close>

text \<open>The three lines that \<open>RunTest\<close> prints before its three test calls.\<close>

definition headings :: "string list" where
  "headings = [''CSR Test'', ''CSR Test -- Padded Data'', ''ELLPACKR Test'']"

text \<open>The names under which the test functions called by \<open>RunTest\<close> record results.\<close>

definition test_names :: "string list" where
  "test_names = [''CSR-Scalar-SP'', ''CSR-Vector-SP'', ''Padded_CSR-Scalar-SP'',
                 ''Padded_CSR-Vector-SP'', ''ELLPACKR-SP'']"

text \<open>The device output of pass \<open>k\<close> of a test passes verification.\<close>

definition verified :: "backend \<Rightarrow> fp list \<Rightarrow> int \<Rightarrow> string \<Rightarrow> int \<Rightarrow> bool" where
  "verified dev refOut numRows testName k =
     (verifyResults refOut (device_output dev testName k) numRows k = Some True)"

text \<open>
  An event that a pass loop may emit: a launch of its kernel with its work sizes, a
  read of \<open>numRows\<close> elements of \<open>d_out\<close>, a verification of \<open>numRows\<close> elements, the
  line \<open>verifyResults\<close> prints, or a result under the test's name for a pass \<open>p\<close> such
  that every pass up to \<open>p\<close> passes verification.
\<close>

fun pass_event :: "backend \<Rightarrow> resource \<Rightarrow> int \<Rightarrow> nat \<Rightarrow> string \<Rightarrow> int \<times> int \<Rightarrow> int \<Rightarrow> fp list \<Rightarrow> event \<Rightarrow> bool" where
  "pass_event dev kern gws lws testName atts numRows refOut (NDRangeKernel k g l) =
     (k = kern \<and> g = gws \<and> l = lws)"
| "pass_event dev kern gws lws testName atts numRows refOut (ReadBuffer r c) =
     (r = Mem_d_out \<and> c = numRows)"
| "pass_event dev kern gws lws testName atts numRows refOut (VerifyResults s p) = (s = numRows)"
| "pass_event dev kern gws lws testName atts numRows refOut (Print s) =
     (s = ''Passed!'' \<or> s = ''---FAILED---'')"
| "pass_event dev kern gws lws testName atts numRows refOut (AddResult name a u p) =
     ((name = testName \<or> name = testName @ ''_PCIe'') \<and> a = atts \<and> 0 \<le> p \<and>
      (\<forall>q. 0 \<le> q \<and> q \<le> p \<longrightarrow> verified dev refOut numRows testName q))"
| "pass_event dev kern gws lws testName atts numRows refOut (Create r c) = False"
| "pass_event dev kern gws lws testName atts numRows refOut (Release r) = False"
| "pass_event dev kern gws lws testName atts numRows refOut (WriteBuffer r c) = False"

text \<open>A result is justified when every pass of its test up to its own passes verification.\<close>

fun justified :: "backend \<Rightarrow> fp list \<Rightarrow> int \<Rightarrow> event \<Rightarrow> bool" where
  "justified dev refOut numRows (AddResult name a u p) =
     (\<exists>t. t \<in> set test_names \<and> (name = t \<or> name = t @ ''_PCIe'') \<and> 0 \<le> p \<and>
        (\<forall>q. 0 \<le> q \<and> q \<le> p \<longrightarrow> verified dev refOut numRows t q))"
| "justified dev refOut numRows e = True"

text \<open>
  The sizes in the events of a CSR run with \<open>numRows\<close> rows and \<open>numNonZeroes\<close>
  entries: the value and column buffers hold \<open>numNonZeroes\<close> elements, the vector and
  output buffers \<open>numRows\<close>, the row-delimiter buffer \<open>numRows + 1\<close>; the scalar kernel is
  launched with global size \<open>numRows\<close>, the vector kernel with \<open>numRows * VECTOR_SIZE\<close>;
  \<open>numRows\<close> elements are read back and verified; results carry the attributes
  \<open>(numNonZeroes, numRows)\<close>. No heading of \<open>RunTest\<close> is printed.
\<close>

fun buffer_size :: "int \<Rightarrow> int \<Rightarrow> resource \<Rightarrow> int \<Rightarrow> bool" where
  "buffer_size numRows numNonZeroes Mem_d_val c = (c = numNonZeroes)"
| "buffer_size numRows numNonZeroes Mem_d_cols c = (c = numNonZeroes)"
| "buffer_size numRows numNonZeroes Mem_d_vec c = (c = numRows)"
| "buffer_size numRows numNonZeroes Mem_d_out c = (c = numRows)"
| "buffer_size numRows numNonZeroes Mem_d_rowDelimiters c = (c = numRows + 1)"
| "buffer_size numRows numNonZeroes Program c = (c = 0)"
| "buffer_size numRows numNonZeroes Kernel_csrScalar c = (c = 0)"
| "buffer_size numRows numNonZeroes Kernel_csrVector c = (c = 0)"
| "buffer_size numRows numNonZeroes r c = False"

fun csr_event :: "int \<Rightarrow> int \<Rightarrow> nat \<Rightarrow> event \<Rightarrow> bool" where
  "csr_event numRows numNonZeroes vector_size (Create r c) = buffer_size numRows numNonZeroes r c"
| "csr_event numRows numNonZeroes vector_size (WriteBuffer r c) = buffer_size numRows numNonZeroes r c"
| "csr_event numRows numNonZeroes vector_size (NDRangeKernel k g l) =
     (k = Kernel_csrScalar \<and> g = numRows \<or> k = Kernel_csrVector \<and> g = numRows * int vector_size)"
| "csr_event numRows numNonZeroes vector_size (ReadBuffer r c) = (r = Mem_d_out \<and> c = numRows)"
| "csr_event numRows numNonZeroes vector_size (VerifyResults s p) = (s = numRows)"
| "csr_event numRows numNonZeroes vector_size (AddResult name a u p) = (a = (numNonZeroes, numRows))"
| "csr_event numRows numNonZeroes vector_size (Print s) = (s \<notin> set headings)"
| "csr_event numRows numNonZeroes vector_size (Release r) = True"

text \<open>An event is not a heading of \<open>RunTest\<close>.\<close>

fun no_heading :: "event \<Rightarrow> bool" where
  "no_heading (Print s) = (s \<notin> set headings)"
| "no_heading e = True"

text \<open>
  The events of \<open>csrTest\<close> outside its pass loops, and those of \<open>ellPackTest\<close>.
\<close>

definition csrTest_fixed :: "int \<Rightarrow> int \<Rightarrow> event list" where
  "csrTest_fixed numRows numNonZeroes =
     [Create Program 0, Print ''Retsize: '', Print ''Log: ''] @
     csrTest_setup numRows numNonZeroes @
     [WriteBuffer Mem_d_out numRows, Print ''CSR Vector Kernel'',
      Print ''Warning: CSRVector requires a work group size >= 32'',
      Print ''Skipping this kernel.''] @
     csrTest_releases"

definition ellPackTest_fixed :: "ellpack_host \<Rightarrow> int \<Rightarrow> int \<Rightarrow> event list" where
  "ellPackTest_fixed h numRows padded_size =
     [Create Program 0, Print ''Retsize: '', Print ''Log: ''] @
     ellPackTest_setup h numRows padded_size @ ellPackTest_releases"

text \<open>
  The events of a pass that passes verification: the kernel launches, the read of
  \<open>d_out\<close>, the verification with the line it prints, and the two results.
\<close>

definition verified_pass :: "backend \<Rightarrow> resource \<Rightarrow> int \<Rightarrow> nat \<Rightarrow> string \<Rightarrow> int \<times> int \<Rightarrow> int \<Rightarrow> int \<Rightarrow> event list" where
  "verified_pass dev kern gws lws testName atts numRows k =
     replicate (nat (option_iterations dev)) (NDRangeKernel kern gws lws) @
     [ReadBuffer Mem_d_out numRows, VerifyResults numRows k, Print ''Passed!'',
      AddResult testName atts ''Gflop/s'' k, AddResult (testName @ ''_PCIe'') atts ''Gflop/s'' k]"

text \<open>
  A run (the events of one call of a test function) returns at a failed
  verification: the line \<open>---FAILED---\<close> occurs nowhere but as the last event.
\<close>

definition returns_at_failure :: "event list \<Rightarrow> bool" where
  "returns_at_failure run = (Print ''---FAILED---'' \<notin> set (butlast run))"

text \<open>
  A run fails fast for the test of its first kernel: if the device output of a pass
  \<open>k\<close> of that test fails verification, the run ends with the line \<open>---FAILED---\<close>,
  and every result recorded in the run is a result of that test for a pass before \<open>k\<close>
  (so the run holds no result of pass \<open>k\<close> or of a later pass, and none of another
  kernel).
\<close>

definition fails_fast :: "backend \<Rightarrow> fp list \<Rightarrow> int \<Rightarrow> string \<Rightarrow> event list \<Rightarrow> bool" where
  "fails_fast dev refOut numRows testName run =
     (\<forall>k. 0 \<le> k \<and> k < option_passes dev \<and>
          verifyResults refOut (device_output dev testName k) numRows k = Some False \<longrightarrow>
        run \<noteq> [] \<and> last run = Print ''---FAILED---'' \<and>
        (\<forall>name a u p. AddResult name a u p \<in> set run \<longrightarrow>
           (name = testName \<or> name = testName @ ''_PCIe'') \<and> p < k))"

text \<open>
  A run executes the passes of the test of its first kernel: for every pass \<open>p\<close> such
  that the device output of every pass up to \<open>p\<close> passes verification, the run holds
  the events of pass \<open>p\<close>, in order and without gap.
\<close>

definition executes :: "backend \<Rightarrow> fp list \<Rightarrow> int \<Rightarrow> resource \<Rightarrow> int \<Rightarrow> nat \<Rightarrow> string \<Rightarrow> int \<times> int \<Rightarrow> event list \<Rightarrow> bool" where
  "executes dev refOut numRows kern gws lws testName atts run =
     (\<forall>p. 0 \<le> p \<and> p < option_passes dev \<and>
          (\<forall>q. 0 \<le> q \<and> q \<le> p \<longrightarrow> verified dev refOut numRows testName q) \<longrightarrow>
        (\<exists>a b. run = a @ verified_pass dev kern gws lws testName atts numRows p @ b))"

text \<open>The resources a run leaves unreleased.\<close>

definition unreleased :: "world option \<Rightarrow> resource list option" where
  "unreleased r = (case r of None \<Rightarrow> None | Some w \<Rightarrow> Some (live (trace w)))"

text \<open>
  Two devices for closed evaluations, each with two passes of one iteration on a
  matrix whose reference result is the single entry 6. The first returns 7 instead of
  6 in pass 1 of the unpadded CSR scalar kernel and of the ELLPACKR kernel; the second
  always returns 6 and reports a maximum work-group size below 32.
\<close>

definition example_backend :: backend where
  "example_backend =
     \<lparr>build_succeeds = True, option_passes = 2, option_iterations = 1,
      max_work_group_size = 64,
      device_output = (\<lambda>name k.
        if (name = ''CSR-Scalar-SP'' \<or> name = ''ELLPACKR-SP'') \<and> k = 1 then [Fin 7] else [Fin 6]),
      BLOCK_SIZE = 128, VECTOR_SIZE = 32\<rparr>"

definition small_group_backend :: backend where
  "small_group_backend =
     \<lparr>build_succeeds = True, option_passes = 2, option_iterations = 1,
      max_work_group_size = 16,
      device_output = (\<lambda>name k. [Fin 6]),
      BLOCK_SIZE = 128, VECTOR_SIZE = 32\<rparr>"

definition fresh_world :: world where
  "fresh_world = \<lparr>trace = [], h_out = [NaN, NaN]\<rparr>"

section \<open>Properties of the reference computation\<close>

declare spmvRow.simps [simp del]
declare spmvRows.simps [simp del]
declare verifyLoop.simps [simp del]

lemma spmvRow_foldl:
  "0 \<le> j \<Longrightarrow> hi \<le> int (length val) \<Longrightarrow> length cols = length val \<Longrightarrow>
   list_all (\<lambda>c. 0 \<le> c \<and> c < int (length vec)) cols \<Longrightarrow>
   spmvRow val cols vec j hi t =
     Some (foldl (\<lambda>t j. t + val ! j * vec ! nat (cols ! j)) t [nat j ..< nat hi])"
proof (induction val cols vec j hi t rule: spmvRow.induct)
  case (1 val cols vec j hi t)
  show ?case
  proof (cases "j < hi")
    case False
    then show ?thesis by (subst spmvRow.simps) simp
  next
    case True
    with "1.prems" have jb: "nat j < length val" "nat j < length cols" by auto
    with "1.prems" have cb: "0 \<le> cols ! nat j" "cols ! nat j < int (length vec)"
      by (auto simp: list_all_length)
    have guard: "in_bounds j cols \<and> in_bounds j val \<and> in_bounds (idx cols j) vec"
      using True cb "1.prems" by (simp add: in_bounds_def idx_def)
    have step: "spmvRow val cols vec (j + 1) hi (t + idx val j * idx vec (idx cols j)) =
       Some (foldl (\<lambda>t j. t + val ! j * vec ! nat (cols ! j)) (t + idx val j * idx vec (idx cols j))
          [nat (j + 1) ..< nat hi])"
    proof (rule "1.IH" [OF True guard])
      show "0 \<le> j + 1" using "1.prems"(1) by simp
    qed (rule "1.prems")+
    have upt: "[nat j ..< nat hi] = nat j # [nat (j + 1) ..< nat hi]"
    proof -
      have lt: "nat j < nat hi" using True "1.prems"(1) by simp
      have "Suc (nat j) = nat (j + 1)" using "1.prems"(1) by simp
      with upt_conv_Cons [OF lt] show ?thesis by simp
    qed
    show ?thesis using guard step
      by (subst spmvRow.simps) (simp add: True upt idx_def)
  qed
qed

lemma CSR_offsets:
  assumes "CSR_invariant val cols rd n m" "0 \<le> i" "i < n"
  shows "0 \<le> idx rd i" "idx rd (i + 1) \<le> int (length val)" "in_bounds i rd" "in_bounds (i + 1) rd"
proof -
  from assms have len: "int (length rd) = n + 1" and srt: "sorted rd"
    and z: "rd ! 0 = 0" and l: "rd ! nat n = int (length val)"
    by (auto simp: CSR_invariant_def idx_def)
  have "rd ! 0 \<le> rd ! nat i" using srt len assms(2,3) by (intro sorted_nth_mono) auto
  then show "0 \<le> idx rd i" by (simp add: z idx_def)
  have "rd ! nat (i + 1) \<le> rd ! nat n" using srt len assms(2,3) by (intro sorted_nth_mono) auto
  then show "idx rd (i + 1) \<le> int (length val)" by (simp add: l idx_def)
  show "in_bounds i rd" "in_bounds (i + 1) rd" using len assms(2,3) by (auto simp: in_bounds_def)
qed

lemma spmvRows_correct:
  "CSR_invariant val cols rd n (int (length vec)) \<Longrightarrow> 0 \<le> i \<Longrightarrow> i \<le> n \<Longrightarrow> n \<le> int (length out) \<Longrightarrow>
    \<exists>res. spmvRows val cols rd vec n i out = Some res \<and> length res = length out \<and>
      (\<forall>k. k < nat i \<longrightarrow> res ! k = out ! k) \<and>
      (\<forall>k. nat i \<le> k \<and> k < nat n \<longrightarrow> res ! k = row_sum val cols rd vec k) \<and>
      (\<forall>k. nat n \<le> k \<longrightarrow> res ! k = out ! k)"
proof (induction val cols rd vec n i out rule: spmvRows.induct)
  case (1 val cols rd vec n i out)
  note inv = "1.prems"(1)
  show ?case
  proof (cases "i < n")
    case False
    with "1.prems" have "i = n" by simp
    then show ?thesis by (subst spmvRows.simps) auto
  next
    case True
    have off: "0 \<le> idx rd i" "idx rd (i + 1) \<le> int (length val)"
      and guard: "in_bounds i rd \<and> in_bounds (i + 1) rd \<and> in_bounds i out"
      using CSR_offsets [OF inv "1.prems"(2) True] True "1.prems" by (auto simp: in_bounds_def)
    have lens: "length cols = length val"
      and colsok: "list_all (\<lambda>c. 0 \<le> c \<and> c < int (length vec)) cols"
      using inv by (auto simp: CSR_invariant_def)
    define t where "t = row_sum val cols rd vec (nat i)"
    have suc: "Suc (nat i) = nat (i + 1)" using "1.prems"(2) by simp
    have row: "spmvRow val cols vec (idx rd i) (idx rd (i + 1)) 0 = Some t"
      unfolding t_def row_sum_def suc
      using spmvRow_foldl [OF off(1) off(2) lens colsok] by (simp add: idx_def)
    have nxt: "0 \<le> i + 1" "i + 1 \<le> n" "n \<le> int (length (out[nat i := t]))"
      using True "1.prems" by simp_all
    from "1.IH" [OF True guard row inv nxt]
    obtain res where res: "spmvRows val cols rd vec n (i + 1) (out[nat i := t]) = Some res"
      "length res = length out"
      "\<forall>k. k < nat (i + 1) \<longrightarrow> res ! k = (out[nat i := t]) ! k"
      "\<forall>k. nat (i + 1) \<le> k \<and> k < nat n \<longrightarrow> res ! k = row_sum val cols rd vec k"
      "\<forall>k. nat n \<le> k \<longrightarrow> res ! k = (out[nat i := t]) ! k"
      by (elim exE conjE) simp
    have eq: "spmvRows val cols rd vec n i out = Some res"
      by (subst spmvRows.simps) (simp add: True guard row res(1))
    have ilen: "nat i < length out" using guard "1.prems"(2) by (auto simp: in_bounds_def)
    have a: "\<forall>k. k < nat i \<longrightarrow> res ! k = out ! k"
    proof (intro allI impI)
      fix k assume k: "k < nat i"
      then have "k < nat (i + 1)" using "1.prems"(2) by linarith
      then have "res ! k = (out[nat i := t]) ! k" using res(3) by blast
      then show "res ! k = out ! k" using k by simp
    qed
    have b: "\<forall>k. nat i \<le> k \<and> k < nat n \<longrightarrow> res ! k = row_sum val cols rd vec k"
    proof (intro allI impI)
      fix k assume k: "nat i \<le> k \<and> k < nat n"
      show "res ! k = row_sum val cols rd vec k"
      proof (cases "k = nat i")
        case True
        then have "k < nat (i + 1)" using "1.prems"(2) by linarith
        then have "res ! k = (out[nat i := t]) ! k" using res(3) by blast
        then show ?thesis using True ilen by (simp add: t_def)
      next
        case False
        then have "nat (i + 1) \<le> k \<and> k < nat n" using k "1.prems"(2) by linarith
        then show ?thesis using res(4) by blast
      qed
    qed
    have c: "\<forall>k. nat n \<le> k \<longrightarrow> res ! k = out ! k"
    proof (intro allI impI)
      fix k assume k: "nat n \<le> k"
      then have "res ! k = (out[nat i := t]) ! k" using res(5) by blast
      moreover have "k \<noteq> nat i" using k True "1.prems"(2) by linarith
      ultimately show "res ! k = out ! k" by simp
    qed
    show ?thesis using eq res(2) a b c by simp
  qed
qed

text \<open>
  C1. For a matrix that satisfies the CSR invariant and a dense vector \<open>vec\<close>,
  \<open>spmvCpu\<close> returns (no read or write leaves an array), and for every row
  \<open>i < dim\<close> the entry \<open>out[i]\<close> is the sum of \<open>val[j] * vec[cols[j]]\<close> over
  \<open>j\<close> from \<open>rowDelimiters[i]\<close> up to \<open>rowDelimiters[i+1] - 1\<close>, accumulated from 0 in
  ascending order of \<open>j\<close>. Entries of \<open>out\<close> beyond \<open>dim\<close> are left as they were.
\<close>

theorem spmvCpu_computes_row_sums:
  assumes "CSR_invariant val cols rowDelimiters dim' (int (length vec))"
    and "dim' \<le> int (length out)"
  shows "\<exists>res. spmvCpu val cols rowDelimiters vec dim' out = Some res \<and>
           length res = length out \<and>
           (\<forall>i. i < nat dim' \<longrightarrow> res ! i = row_sum val cols rowDelimiters vec i) \<and>
           (\<forall>i. nat dim' \<le> i \<longrightarrow> res ! i = out ! i)"
proof -
  have "0 \<le> dim'" using assms(1) by (simp add: CSR_invariant_def)
  from spmvRows_correct [OF assms(1) order_refl this assms(2)] show ?thesis
    by (simp add: spmvCpu_def)
qed

text \<open>
  The 4 by 4 diagonal matrix with values 1, 2, 3, 4 and the vector of ones: the
  reference output is 1, 2, 3, 4.
\<close>

theorem spmvCpu_computes_row_sums_witness:
  "CSR_invariant [Fin 1, Fin 2, Fin 3, Fin 4] [0, 1, 2, 3] [0, 1, 2, 3, 4] 4 (int (length [Fin 1, Fin 1, Fin 1, Fin 1])) \<and>
   spmvCpu [Fin 1, Fin 2, Fin 3, Fin 4] [0, 1, 2, 3] [0, 1, 2, 3, 4] [Fin 1, Fin 1, Fin 1, Fin 1] 4 [NaN, NaN, NaN, NaN]
     = Some [Fin 1, Fin 2, Fin 3, Fin 4]"
proof -
  let ?val = "[Fin 1, Fin 2, Fin 3, Fin 4]" and ?cols = "[0, 1, 2, 3 :: int]"
  let ?rd = "[0, 1, 2, 3, 4 :: int]" and ?vec = "[Fin 1, Fin 1, Fin 1, Fin 1]"
  let ?out = "[NaN, NaN, NaN, NaN]"
  have inv: "CSR_invariant ?val ?cols ?rd 4 (int (length ?vec))"
    by (simp add: CSR_invariant_def idx_def)
  have len: "(4::int) \<le> int (length ?out)" by simp
  from spmvCpu_computes_row_sums [OF inv len]
  obtain res where r: "spmvCpu ?val ?cols ?rd ?vec 4 ?out = Some res" "length res = 4"
    and s: "\<forall>i. i < nat 4 \<longrightarrow> res ! i = row_sum ?val ?cols ?rd ?vec i"
    by (elim exE conjE) simp
  have "res ! 0 = row_sum ?val ?cols ?rd ?vec 0" "res ! 1 = row_sum ?val ?cols ?rd ?vec 1"
    "res ! 2 = row_sum ?val ?cols ?rd ?vec 2" "res ! 3 = row_sum ?val ?cols ?rd ?vec 3"
    using s by simp_all
  moreover have "row_sum ?val ?cols ?rd ?vec 0 = Fin 1" "row_sum ?val ?cols ?rd ?vec 1 = Fin 2"
    "row_sum ?val ?cols ?rd ?vec 2 = Fin 3" "row_sum ?val ?cols ?rd ?vec 3 = Fin 4"
    by code_simp+
  ultimately have "res ! 0 = Fin 1" "res ! 1 = Fin 2" "res ! 2 = Fin 3" "res ! 3 = Fin 4"
    by simp_all
  with r(2) have "res = [Fin 1, Fin 2, Fin 3, Fin 4]"
    by (intro nth_equalityI) (auto simp: less_Suc_eq numeral_eq_Suc)
  with r(1) inv show ?thesis by simp
qed

section \<open>Properties of the verifier\<close>

lemmas fp_simps = minus_fp_def plus_fp_def divide_fp_def less_fp_def is_inf_def is_zero_def
  zero_of_def inf_of_def

lemma verifyLoop_eq:
  "0 \<le> i \<Longrightarrow> size' \<le> int (length c) \<Longrightarrow> size' \<le> int (length g) \<Longrightarrow>
   verifyLoop tol c g size' i p =
     Some (p \<and> (\<forall>k. nat i \<le> k \<and> k < nat size' \<longrightarrow> \<not> mismatch tol (c ! k) (g ! k)))"
proof (induction tol c g size' i p rule: verifyLoop.induct)
  case (1 tol c g size' i p)
  show ?case
  proof (cases "i < size'")
    case False
    have "verifyLoop tol c g size' i p = Some p"
      using False by (subst verifyLoop.simps) simp
    moreover have "(p \<and> (\<forall>k. nat i \<le> k \<and> k < nat size' \<longrightarrow> \<not> mismatch tol (c ! k) (g ! k))) = p"
      using False by auto
    ultimately show ?thesis by simp
  next
    case True
    have guard: "in_bounds i c \<and> in_bounds i g"
      using True "1.prems" by (simp add: in_bounds_def)
    define p' where "p' = (if mismatch tol (idx c i) (idx g i) then False else p)"
    have ih: "verifyLoop tol c g size' (i + 1) p' =
        Some (p' \<and> (\<forall>k. nat (i + 1) \<le> k \<and> k < nat size' \<longrightarrow> \<not> mismatch tol (c ! k) (g ! k)))"
      unfolding p'_def
    proof (rule "1.IH" [OF True guard])
      show "0 \<le> i + 1" using "1.prems"(1) by simp
    qed (rule "1.prems")+
    have split: "(nat i \<le> k \<and> k < nat size') = (k = nat i \<or> (nat (i + 1) \<le> k \<and> k < nat size'))" for k
      using True "1.prems"(1) by auto
    have "(p' \<and> (\<forall>k. nat (i + 1) \<le> k \<and> k < nat size' \<longrightarrow> \<not> mismatch tol (c ! k) (g ! k))) =
          (p \<and> (\<forall>k. nat i \<le> k \<and> k < nat size' \<longrightarrow> \<not> mismatch tol (c ! k) (g ! k)))"
      unfolding split p'_def idx_def by auto
    with ih have "verifyLoop tol c g size' (i + 1) p' =
        Some (p \<and> (\<forall>k. nat i \<le> k \<and> k < nat size' \<longrightarrow> \<not> mismatch tol (c ! k) (g ! k)))"
      by simp
    then show ?thesis
      by (subst verifyLoop.simps) (simp add: True guard p'_def)
  qed
qed

lemma verifyResults_eq:
  "size' \<le> int (length c) \<Longrightarrow> size' \<le> int (length g) \<Longrightarrow>
   verifyResults c g size' pass =
     Some (\<forall>k. k < nat size' \<longrightarrow> \<not> mismatch MAX_RELATIVE_ERROR (c ! k) (g ! k))"
  using verifyLoop_eq [of 0 size' c g MAX_RELATIVE_ERROR True] by (simp add: verifyResults_def)

lemma mismatch_self: "0 \<le> tolerance \<Longrightarrow> \<not> mismatch tolerance x x"
  by (cases x; cases tolerance) (auto simp: mismatch_def fp_simps less_eq_fp_def zero_fp_def)

lemma mismatch_zero_ref:
  "mismatch (Fin t) (Fin 0) g = (g \<noteq> Fin 0 \<and> g \<noteq> NegZero \<and> g \<noteq> NaN)"
  by (cases g) (auto simp: mismatch_def fp_simps)

lemma mismatch_pos_ref:
  "0 < r \<Longrightarrow> mismatch (Fin t) (Fin r) (Fin q) = (\<bar>r - q\<bar> / r > t)"
  by (auto simp: mismatch_def fp_simps)

text \<open>
  With a negative reference, or the negative zero, the quotient is never above a
  tolerance that is at least 0: no candidate is a mismatch.
\<close>

lemma abs_div_neg: "r < 0 \<Longrightarrow> 0 \<le> t \<Longrightarrow> \<not> t < \<bar>a\<bar> / (r::rat)"
  using divide_nonneg_neg [of "\<bar>a\<bar>" r] by simp

lemma mismatch_neg_ref:
  "r < 0 \<Longrightarrow> 0 \<le> t \<Longrightarrow> \<not> mismatch (Fin t) (Fin r) g"
  by (cases g) (auto simp: mismatch_def fp_simps abs_div_neg)

lemma mismatch_negzero_ref:
  "0 \<le> t \<Longrightarrow> \<not> mismatch (Fin t) NegZero g"
  by (cases g) (auto simp: mismatch_def fp_simps)

text \<open>
  C2. The claim takes the absolute value of the reference as divisor; the code divides
  by the reference itself. With the reference \<open>-10\<close> and the candidate \<open>1000\<close> the
  relative error is 101, yet the quotient computed is \<open>-101\<close>, which does not exceed
  the tolerance: \<open>verifyResults\<close> reports a pass.
\<close>

theorem verifyResults_negative_reference_passes:
  "verifyResults [Fin (- 10)] [Fin 1000] 1 0 = Some True \<and>
   \<bar>Fin (- 10) - Fin 1000\<bar> / Fin (- 10) = Fin (- 101) \<and>
   spec_mismatch MAX_RELATIVE_ERROR (Fin (- 10)) (Fin 1000)"
  by (simp add: verifyResults_eq mismatch_def spec_mismatch_def MAX_RELATIVE_ERROR_def fp_simps)

text \<open>
  C7. The claim fails on the code. With the reference \<open>+0\<close> and a NaN candidate the
  quotient \<open>|0 - NaN| / 0\<close> is NaN, the comparison with the tolerance is false and the
  entry passes: \<open>verifyResults\<close> reports a pass for two vectors that differ. With the
  reference \<open>-0\<close> and the candidate 1 the signed divisor gives \<open>-\<infinity>\<close>, and the entry
  passes as well.
\<close>

theorem zero_reference_nan_candidate_passes:
  "verifyResults [Fin 0] [NaN] 1 0 = Some True \<and> NaN \<noteq> Fin 0 \<and>
   \<bar>Fin 0 - NaN\<bar> / Fin 0 = NaN \<and>
   verifyResults [NegZero] [Fin 1] 1 0 = Some True \<and> Fin 1 \<noteq> NegZero \<and>
   \<bar>NegZero - Fin 1\<bar> / NegZero = NInf"
  by (simp add: verifyResults_eq mismatch_def MAX_RELATIVE_ERROR_def fp_simps)

text \<open>
  The other candidates at a reference entry \<open>+0\<close>: the entry is a mismatch exactly
  when the candidate is neither a zero nor a NaN (the quotient is then \<open>+\<infinity>\<close>), and
  such a mismatch makes \<open>verifyResults\<close> return failed.
\<close>

lemma zero_reference_entry:
  assumes "size' \<le> int (length cpuResults)" and "size' \<le> int (length gpuResults)"
    and "i < nat size'" and "cpuResults ! i = Fin 0"
  shows "mismatch MAX_RELATIVE_ERROR (cpuResults ! i) (gpuResults ! i) =
           (gpuResults ! i \<noteq> Fin 0 \<and> gpuResults ! i \<noteq> NegZero \<and> gpuResults ! i \<noteq> NaN) \<and>
         (gpuResults ! i \<noteq> Fin 0 \<and> gpuResults ! i \<noteq> NegZero \<and> gpuResults ! i \<noteq> NaN \<longrightarrow>
            verifyResults cpuResults gpuResults size' pass = Some False)"
proof -
  have m: "mismatch MAX_RELATIVE_ERROR (cpuResults ! i) (gpuResults ! i) =
      (gpuResults ! i \<noteq> Fin 0 \<and> gpuResults ! i \<noteq> NegZero \<and> gpuResults ! i \<noteq> NaN)"
    using assms(4) by (simp add: MAX_RELATIVE_ERROR_def mismatch_zero_ref)
  have "verifyResults cpuResults gpuResults size' pass = Some False"
    if "mismatch MAX_RELATIVE_ERROR (cpuResults ! i) (gpuResults ! i)"
    using that assms(3) by (auto simp: verifyResults_eq [OF assms(1,2)])
  with m show ?thesis by simp
qed

text \<open>
  C8 as stated fails: \<open>verifyResults\<close> returns the pass flag and nothing else. A first
  mismatch at index 0 and a first mismatch at index 1 give the same result.
\<close>

theorem verifyResults_reports_no_index:
  "verifyResults [Fin 1, Fin 1] [Fin 2, Fin 1] 2 0 = Some False \<and>
   verifyResults [Fin 1, Fin 1] [Fin 1, Fin 2] 2 0 = Some False"
  by (simp add: verifyResults_eq mismatch_def MAX_RELATIVE_ERROR_def fp_simps
      less_Suc_eq numeral_2_eq_2 all_conj_distrib)

text \<open>
  C8, amended. \<open>verifyResults\<close> returns only the pass flag: it is false exactly when
  the test of the loop body holds at some index below \<open>size\<close>. In particular, when an
  entry with a positive finite reference \<open>r\<close> and a finite candidate \<open>q\<close> has
  \<open>|r - q| / r\<close> above \<open>10\<^sup>-\<^sup>1\<^sup>0\<close>, the result is failed.
\<close>

theorem verifyResults_fails_on_mismatch:
  assumes "size' \<le> int (length cpuResults)" and "size' \<le> int (length gpuResults)"
  shows "verifyResults cpuResults gpuResults size' pass =
           Some (\<not> (\<exists>k. k < nat size' \<and> mismatch MAX_RELATIVE_ERROR (cpuResults ! k) (gpuResults ! k))) \<and>
         (\<forall>i r q. i < nat size' \<and> cpuResults ! i = Fin r \<and> 0 < r \<and> gpuResults ! i = Fin q \<and>
              1 / 10 ^ 10 < \<bar>r - q\<bar> / r \<longrightarrow>
            verifyResults cpuResults gpuResults size' pass = Some False)"
proof -
  have eq: "verifyResults cpuResults gpuResults size' pass =
      Some (\<not> (\<exists>k. k < nat size' \<and> mismatch MAX_RELATIVE_ERROR (cpuResults ! k) (gpuResults ! k)))"
    by (simp add: verifyResults_eq [OF assms])
  have "verifyResults cpuResults gpuResults size' pass = Some False"
    if "i < nat size'" "cpuResults ! i = Fin r" "0 < r" "gpuResults ! i = Fin q"
      "1 / 10 ^ 10 < \<bar>r - q\<bar> / r" for i r q
  proof -
    have "mismatch MAX_RELATIVE_ERROR (cpuResults ! i) (gpuResults ! i)"
      using that by (simp add: MAX_RELATIVE_ERROR_def mismatch_pos_ref)
    with that(1) show ?thesis unfolding eq by blast
  qed
  with eq show ?thesis by blast
qed

text \<open>
  Scenario 4 of the specification: reference 10, candidate 10.000001, relative error
  \<open>10\<^sup>-\<^sup>7\<close>.
\<close>

theorem verifyResults_fails_on_mismatch_witness:
  "(1::int) \<le> int (length [Fin 10]) \<and> (1::int) \<le> int (length [Fin (10000001 / 1000000)]) \<and>
   (1::rat) / 10 ^ 10 < \<bar>10 - 10000001 / 1000000\<bar> / 10 \<and>
   verifyResults [Fin 10] [Fin (10000001 / 1000000)] 1 0 = Some False"
proof -
  have a: "(1::int) \<le> int (length [Fin 10])" "(1::int) \<le> int (length [Fin (10000001 / 1000000)])"
    by simp_all
  have b: "(1::rat) / 10 ^ 10 < \<bar>10 - 10000001 / 1000000\<bar> / 10" by simp
  from verifyResults_fails_on_mismatch [OF a, of 0, THEN conjunct2, rule_format, of 0 10 "10000001 / 1000000"] b
  have "verifyResults [Fin 10] [Fin (10000001 / 1000000)] 1 0 = Some False" by simp
  with a b show ?thesis by simp
qed

text \<open>
  C9. Comparing a vector with itself passes, for every tolerance that is at least 0 and
  so for the tolerance of \<open>verifyResults\<close>: \<open>x - x\<close> is \<open>+0\<close> or NaN, and the quotient is
  a zero or NaN, neither above the tolerance. A zero reference entry is no exception.
\<close>

theorem verify_self_comparison_passes:
  assumes "0 \<le> tolerance" and "size' \<le> int (length v)"
  shows "verifyLoop tolerance v v size' 0 True = Some True \<and>
         verifyResults v v size' pass = Some True"
proof -
  have "verifyLoop tol v v size' 0 True = Some True" if "0 \<le> tol" for tol
    using that by (simp add: verifyLoop_eq [OF order_refl assms(2) assms(2)] mismatch_self)
  moreover have "0 \<le> MAX_RELATIVE_ERROR"
    by (simp add: MAX_RELATIVE_ERROR_def less_eq_fp_def zero_fp_def)
  ultimately show ?thesis using assms(1) by (simp add: verifyResults_def)
qed

theorem verify_self_comparison_passes_witness:
  "(0::fp) \<le> Fin 0 \<and> (4::int) \<le> int (length [Fin 0, Fin (- 3), NegZero, PInf]) \<and>
   verifyLoop (Fin 0) [Fin 0, Fin (- 3), NegZero, PInf] [Fin 0, Fin (- 3), NegZero, PInf] 4 0 True = Some True \<and>
   verifyResults [Fin 0, Fin (- 3), NegZero, PInf] [Fin 0, Fin (- 3), NegZero, PInf] 4 0 = Some True"
proof -
  have a: "(0::fp) \<le> Fin 0" by (simp add: less_eq_fp_def zero_fp_def)
  have b: "(4::int) \<le> int (length [Fin 0, Fin (- 3), NegZero, PInf])" by simp
  from verify_self_comparison_passes [OF a b] a b show ?thesis by simp
qed

section \<open>Properties of the padded row count\<close>

lemma int32_id: "INT_MIN \<le> x \<Longrightarrow> x \<le> INT_MAX \<Longrightarrow> int32 x = x"
  by (simp add: int32_def INT_MIN_def INT_MAX_def)

lemma paddedSize_cases:
  assumes "0 < numRows" "0 < PAD_FACTOR"
    and "numRows + (PAD_FACTOR - numRows mod PAD_FACTOR) \<le> INT_MAX"
  shows "paddedSize PAD_FACTOR numRows = numRows + (PAD_FACTOR - numRows mod PAD_FACTOR)"
    "numRows mod PAD_FACTOR = 0 \<longrightarrow> paddedSize PAD_FACTOR numRows = numRows + PAD_FACTOR"
    "PAD_FACTOR dvd paddedSize PAD_FACTOR numRows"
    "numRows < paddedSize PAD_FACTOR numRows"
    "paddedSize PAD_FACTOR numRows \<le> numRows + PAD_FACTOR"
proof -
  have sm: "numRows smod PAD_FACTOR = numRows mod PAD_FACTOR"
    using assms by (simp add: smod_int_alt_def)
  have md: "numRows mod PAD_FACTOR < PAD_FACTOR" "0 \<le> numRows mod PAD_FACTOR"
    using assms(2) by simp_all
  have inner: "int32 (PAD_FACTOR - numRows mod PAD_FACTOR) = PAD_FACTOR - numRows mod PAD_FACTOR"
    using md assms(1,3) by (intro int32_id) (simp_all add: INT_MIN_def)
  have outer: "int32 (numRows + (PAD_FACTOR - numRows mod PAD_FACTOR)) =
      numRows + (PAD_FACTOR - numRows mod PAD_FACTOR)"
    using md assms(1,3) by (intro int32_id) (simp_all add: INT_MIN_def)
  show a: "paddedSize PAD_FACTOR numRows = numRows + (PAD_FACTOR - numRows mod PAD_FACTOR)"
    by (simp add: paddedSize_def sm inner outer)
  show "numRows mod PAD_FACTOR = 0 \<longrightarrow> paddedSize PAD_FACTOR numRows = numRows + PAD_FACTOR"
    by (simp add: a)
  have "paddedSize PAD_FACTOR numRows = (numRows - numRows mod PAD_FACTOR) + PAD_FACTOR"
    by (simp add: a)
  also have "numRows - numRows mod PAD_FACTOR = PAD_FACTOR * (numRows div PAD_FACTOR)"
    by (simp add: minus_mod_eq_mult_div)
  finally show "PAD_FACTOR dvd paddedSize PAD_FACTOR numRows" by simp
  show "numRows < paddedSize PAD_FACTOR numRows"
    "paddedSize PAD_FACTOR numRows \<le> numRows + PAD_FACTOR"
    using md by (simp_all add: a)
qed

text \<open>
  Beyond the range of \<open>int\<close> the addition overflows: with the pad factor 32 and
  \<open>INT_MAX\<close> rows, two's-complement arithmetic delivers \<open>INT_MIN\<close>.
\<close>

lemma paddedSize_overflows:
  "paddedSize 32 INT_MAX = INT_MIN"
  by (simp add: paddedSize_def int32_def INT_MAX_def INT_MIN_def smod_int_alt_def)

text \<open>
  C4 as stated fails: for a row count that is a multiple of the pad factor the code
  does not leave the count unchanged; it adds a whole block. 32 rows become 64.
\<close>

theorem paddedSize_exact_multiple_grows:
  "(32::int) smod 32 = 0 \<and> paddedSize 32 32 = 64 \<and> paddedSize 32 32 \<noteq> 32"
  by (simp add: paddedSize_def int32_def)

text \<open>
  C4, amended. For positive \<open>numRows\<close> and pad factor such that
  \<open>numRows + (PAD_FACTOR - numRows % PAD_FACTOR)\<close> does not exceed \<open>INT_MAX\<close>, the
  padded row count is that number in every case: the least multiple of the pad factor
  that is greater than \<open>numRows\<close>. When \<open>numRows\<close> is a multiple of the pad factor this
  is \<open>numRows + PAD_FACTOR\<close>.
\<close>

theorem paddedSize_next_multiple:
  assumes "0 < numRows" and "0 < PAD_FACTOR"
    and "numRows + (PAD_FACTOR - numRows mod PAD_FACTOR) \<le> INT_MAX"
  shows "paddedSize PAD_FACTOR numRows = numRows + (PAD_FACTOR - numRows mod PAD_FACTOR) \<and>
         (numRows mod PAD_FACTOR = 0 \<longrightarrow> paddedSize PAD_FACTOR numRows = numRows + PAD_FACTOR) \<and>
         PAD_FACTOR dvd paddedSize PAD_FACTOR numRows \<and>
         numRows < paddedSize PAD_FACTOR numRows \<and>
         paddedSize PAD_FACTOR numRows \<le> numRows + PAD_FACTOR \<and>
         paddedSize PAD_FACTOR numRows \<le> INT_MAX"
  using paddedSize_cases [OF assms] assms(3) by simp

text \<open>With the pad factor 32, 33 rows are padded to 64 rows, and so are 32 rows.\<close>

theorem paddedSize_next_multiple_witness:
  "(0::int) < 33 \<and> (0::int) < 32 \<and> 33 + (32 - 33 mod 32) \<le> INT_MAX \<and>
   paddedSize 32 33 = 64 \<and> paddedSize 32 32 = 64 \<and> (32::int) dvd paddedSize 32 33"
  using paddedSize_next_multiple [of 33 32] paddedSize_next_multiple [of 32 32]
  by (simp add: INT_MAX_def)

section \<open>Properties of the ELLPACKR set-up\<close>

declare rowLengthsLoop.simps [simp del]
declare padLengthsLoop.simps [simp del]

lemma padLengthsLoop_correct:
  "0 \<le> p \<Longrightarrow> ps \<le> int (length rl) \<Longrightarrow>
   \<exists>rl'. padLengthsLoop ps p rl = Some rl' \<and> length rl' = length rl \<and>
     (\<forall>i. i < nat p \<longrightarrow> rl' ! i = rl ! i) \<and>
     (\<forall>i. nat p \<le> i \<and> i < nat ps \<longrightarrow> rl' ! i = Some 0) \<and>
     (\<forall>i. nat ps \<le> i \<longrightarrow> rl' ! i = rl ! i)"
proof (induction ps p rl rule: padLengthsLoop.induct)
  case (1 ps p rl)
  show ?case
  proof (cases "p < ps")
    case False
    have "padLengthsLoop ps p rl = Some rl"
      using False by (subst padLengthsLoop.simps) simp
    moreover have "\<forall>i. \<not> (nat p \<le> i \<and> i < nat ps)" using False by auto
    ultimately show ?thesis by blast
  next
    case True
    have guard: "in_bounds p rl" using True "1.prems" by (simp add: in_bounds_def)
    have plen: "nat p < length rl" using True "1.prems" by linarith
    have "\<exists>rl'. padLengthsLoop ps (p + 1) (rl[nat p := Some 0]) = Some rl' \<and>
        length rl' = length (rl[nat p := Some 0]) \<and>
        (\<forall>i. i < nat (p + 1) \<longrightarrow> rl' ! i = (rl[nat p := Some 0]) ! i) \<and>
        (\<forall>i. nat (p + 1) \<le> i \<and> i < nat ps \<longrightarrow> rl' ! i = Some 0) \<and>
        (\<forall>i. nat ps \<le> i \<longrightarrow> rl' ! i = (rl[nat p := Some 0]) ! i)"
    proof (rule "1.IH" [OF True guard])
      show "0 \<le> p + 1" using "1.prems"(1) by simp
      show "ps \<le> int (length (rl[nat p := Some 0]))" using "1.prems"(2) by simp
    qed
    then obtain rl' where r: "padLengthsLoop ps (p + 1) (rl[nat p := Some 0]) = Some rl'"
      "length rl' = length rl"
      "\<forall>i. i < nat (p + 1) \<longrightarrow> rl' ! i = (rl[nat p := Some 0]) ! i"
      "\<forall>i. nat (p + 1) \<le> i \<and> i < nat ps \<longrightarrow> rl' ! i = Some 0"
      "\<forall>i. nat ps \<le> i \<longrightarrow> rl' ! i = (rl[nat p := Some 0]) ! i"
      by (elim exE conjE) simp
    have eq: "padLengthsLoop ps p rl = Some rl'"
      by (subst padLengthsLoop.simps) (simp add: True guard r(1))
    have a: "\<forall>i. i < nat p \<longrightarrow> rl' ! i = rl ! i"
    proof (intro allI impI)
      fix i assume i: "i < nat p"
      then have "i < nat (p + 1)" using "1.prems"(1) by linarith
      then have "rl' ! i = (rl[nat p := Some 0]) ! i" using r(3) by blast
      then show "rl' ! i = rl ! i" using i by simp
    qed
    have b: "\<forall>i. nat p \<le> i \<and> i < nat ps \<longrightarrow> rl' ! i = Some 0"
    proof (intro allI impI)
      fix i assume i: "nat p \<le> i \<and> i < nat ps"
      show "rl' ! i = Some 0"
      proof (cases "i = nat p")
        case True
        then have "i < nat (p + 1)" using "1.prems"(1) by linarith
        then have "rl' ! i = (rl[nat p := Some 0]) ! i" using r(3) by blast
        then show ?thesis using True plen by simp
      next
        case False
        then have "nat (p + 1) \<le> i \<and> i < nat ps" using i "1.prems"(1) by linarith
        then show ?thesis using r(4) by blast
      qed
    qed
    have c: "\<forall>i. nat ps \<le> i \<longrightarrow> rl' ! i = rl ! i"
    proof (intro allI impI)
      fix i assume i: "nat ps \<le> i"
      then have "rl' ! i = (rl[nat p := Some 0]) ! i" using r(5) by blast
      moreover have "i \<noteq> nat p" using i True "1.prems"(1) by linarith
      ultimately show "rl' ! i = rl ! i" by simp
    qed
    show ?thesis using eq r(2) a b c by simp
  qed
qed

lemma rowLengthsLoop_correct:
  "0 \<le> k \<Longrightarrow> k \<le> n \<Longrightarrow> n + 1 \<le> int (length rd) \<Longrightarrow> n \<le> int (length rl) \<Longrightarrow>
   \<exists>rl' m'. rowLengthsLoop rd n k rl m = Some (rl', m') \<and> length rl' = length rl \<and>
     (\<forall>i. i < nat k \<longrightarrow> rl' ! i = rl ! i) \<and>
     (\<forall>i. nat k \<le> i \<and> i < nat n \<longrightarrow> rl' ! i = Some (int32 (rd ! Suc i - rd ! i))) \<and>
     (\<forall>i. nat n \<le> i \<longrightarrow> rl' ! i = rl ! i) \<and>
     m \<le> m' \<and>
     (\<forall>i. nat k \<le> i \<and> i < nat n \<longrightarrow> int32 (rd ! Suc i - rd ! i) \<le> m') \<and>
     (m' = m \<or> (\<exists>i. nat k \<le> i \<and> i < nat n \<and> m' = int32 (rd ! Suc i - rd ! i)))"
proof (induction rd n k rl m rule: rowLengthsLoop.induct)
  case (1 rd n k rl m)
  show ?case
  proof (cases "k < n")
    case False
    have "rowLengthsLoop rd n k rl m = Some (rl, m)"
      using False by (subst rowLengthsLoop.simps) simp
    moreover have "\<forall>i. \<not> (nat k \<le> i \<and> i < nat n)" using False by auto
    ultimately show ?thesis by blast
  next
    case True
    define len where "len = int32 (idx rd (k + 1) - idx rd k)"
    define m1 where "m1 = (if len > m then len else m)"
    have suc: "nat (k + 1) = Suc (nat k)" using "1.prems"(1) by simp
    have len_eq: "len = int32 (rd ! Suc (nat k) - rd ! nat k)" by (simp add: len_def idx_def suc)
    have guard: "in_bounds k rd \<and> in_bounds (k + 1) rd \<and> in_bounds k rl"
      using True "1.prems" by (simp add: in_bounds_def)
    have klen: "nat k < length rl" using True "1.prems" by linarith
    have "\<exists>rl' m'. rowLengthsLoop rd n (k + 1) (rl[nat k := Some len]) m1 = Some (rl', m') \<and>
        length rl' = length (rl[nat k := Some len]) \<and>
        (\<forall>i. i < nat (k + 1) \<longrightarrow> rl' ! i = (rl[nat k := Some len]) ! i) \<and>
        (\<forall>i. nat (k + 1) \<le> i \<and> i < nat n \<longrightarrow> rl' ! i = Some (int32 (rd ! Suc i - rd ! i))) \<and>
        (\<forall>i. nat n \<le> i \<longrightarrow> rl' ! i = (rl[nat k := Some len]) ! i) \<and>
        m1 \<le> m' \<and>
        (\<forall>i. nat (k + 1) \<le> i \<and> i < nat n \<longrightarrow> int32 (rd ! Suc i - rd ! i) \<le> m') \<and>
        (m' = m1 \<or> (\<exists>i. nat (k + 1) \<le> i \<and> i < nat n \<and> m' = int32 (rd ! Suc i - rd ! i)))"
      unfolding m1_def
    proof (rule "1.IH" [OF True guard len_def])
      show "0 \<le> k + 1" using "1.prems"(1) by simp
      show "k + 1 \<le> n" using True by simp
      show "n + 1 \<le> int (length rd)" by (rule "1.prems")
      show "n \<le> int (length (rl[nat k := Some len]))" using "1.prems"(4) by simp
    qed
    then obtain rl' m' where r: "rowLengthsLoop rd n (k + 1) (rl[nat k := Some len]) m1 = Some (rl', m')"
      "length rl' = length rl"
      "\<forall>i. i < nat (k + 1) \<longrightarrow> rl' ! i = (rl[nat k := Some len]) ! i"
      "\<forall>i. nat (k + 1) \<le> i \<and> i < nat n \<longrightarrow> rl' ! i = Some (int32 (rd ! Suc i - rd ! i))"
      "\<forall>i. nat n \<le> i \<longrightarrow> rl' ! i = (rl[nat k := Some len]) ! i"
      "m1 \<le> m'"
      "\<forall>i. nat (k + 1) \<le> i \<and> i < nat n \<longrightarrow> int32 (rd ! Suc i - rd ! i) \<le> m'"
      "m' = m1 \<or> (\<exists>i. nat (k + 1) \<le> i \<and> i < nat n \<and> m' = int32 (rd ! Suc i - rd ! i))"
      by (elim exE conjE) simp
    have eq: "rowLengthsLoop rd n k rl m = Some (rl', m')"
      using r(1) unfolding m1_def len_def
      by (subst rowLengthsLoop.simps) (simp add: True guard Let_def)
    have a: "\<forall>i. i < nat k \<longrightarrow> rl' ! i = rl ! i"
    proof (intro allI impI)
      fix i assume i: "i < nat k"
      then have "i < nat (k + 1)" using "1.prems"(1) by linarith
      then have "rl' ! i = (rl[nat k := Some len]) ! i" using r(3) by blast
      then show "rl' ! i = rl ! i" using i by simp
    qed
    have b: "\<forall>i. nat k \<le> i \<and> i < nat n \<longrightarrow> rl' ! i = Some (int32 (rd ! Suc i - rd ! i))"
    proof (intro allI impI)
      fix i assume i: "nat k \<le> i \<and> i < nat n"
      show "rl' ! i = Some (int32 (rd ! Suc i - rd ! i))"
      proof (cases "i = nat k")
        case True
        then have "i < nat (k + 1)" using "1.prems"(1) by linarith
        then have "rl' ! i = (rl[nat k := Some len]) ! i" using r(3) by blast
        then show ?thesis using True klen by (simp add: len_eq)
      next
        case False
        then have "nat (k + 1) \<le> i \<and> i < nat n" using i "1.prems"(1) by linarith
        then show ?thesis using r(4) by blast
      qed
    qed
    have c: "\<forall>i. nat n \<le> i \<longrightarrow> rl' ! i = rl ! i"
    proof (intro allI impI)
      fix i assume i: "nat n \<le> i"
      then have "rl' ! i = (rl[nat k := Some len]) ! i" using r(5) by blast
      moreover have "i \<noteq> nat k" using i True "1.prems"(1) by linarith
      ultimately show "rl' ! i = rl ! i" by simp
    qed
    have m1: "m \<le> m1" "len \<le> m1" "m1 = m \<or> m1 = len" by (simp_all add: m1_def)
    have d: "m \<le> m'" using m1(1) r(6) by simp
    have e: "\<forall>i. nat k \<le> i \<and> i < nat n \<longrightarrow> int32 (rd ! Suc i - rd ! i) \<le> m'"
    proof (intro allI impI)
      fix i assume i: "nat k \<le> i \<and> i < nat n"
      show "int32 (rd ! Suc i - rd ! i) \<le> m'"
      proof (cases "i = nat k")
        case True
        then show ?thesis using m1(2) r(6) by (simp add: len_eq)
      next
        case False
        then have "nat (k + 1) \<le> i \<and> i < nat n" using i "1.prems"(1) by linarith
        then show ?thesis using r(7) by blast
      qed
    qed
    have kn: "nat k \<le> nat k \<and> nat k < nat n" using True "1.prems"(1) by simp
    have f: "m' = m \<or> (\<exists>i. nat k \<le> i \<and> i < nat n \<and> m' = int32 (rd ! Suc i - rd ! i))"
    proof (cases "m' = m1")
      case True
      show ?thesis
      proof (cases "m1 = m")
        case True
        with \<open>m' = m1\<close> show ?thesis by simp
      next
        case False
        with m1(3) \<open>m' = m1\<close> have "m' = int32 (rd ! Suc (nat k) - rd ! nat k)" by (simp add: len_eq)
        with kn show ?thesis by blast
      qed
    next
      case False
      with r(8) obtain i where i: "nat (k + 1) \<le> i" "i < nat n" "m' = int32 (rd ! Suc i - rd ! i)" by blast
      then have "nat k \<le> i" by linarith
      with i show ?thesis by blast
    qed
    show ?thesis using eq r(2) a b c d e f by simp
  qed
qed

lemma ellPackSetup_correct:
  assumes "0 \<le> numRows" and "numRows \<le> padded_size"
    and "numRows + 1 \<le> int (length h_rowDelimiters)" and "sorted h_rowDelimiters"
    and "\<forall>i. i < nat numRows \<longrightarrow>
           (h_rowDelimiters ! Suc i - h_rowDelimiters ! i) *
             (if padded then padded_size else numRows) \<le> INT_MAX"
  shows "\<exists>h. ellPackSetup h_rowDelimiters numRows padded padded_size = Some h \<and>
    length (h_rowLengths h) = nat padded_size \<and>
    (\<forall>i. i < nat numRows \<longrightarrow>
       h_rowLengths h ! i = Some (h_rowDelimiters ! Suc i - h_rowDelimiters ! i)) \<and>
    (\<forall>i. nat numRows \<le> i \<and> i < nat padded_size \<longrightarrow> h_rowLengths h ! i = Some 0) \<and>
    (\<forall>i. i < nat padded_size \<longrightarrow> (\<exists>l. h_rowLengths h ! i = Some l \<and> l \<le> maxrl h)) \<and>
    (0 < padded_size \<longrightarrow> Some (maxrl h) \<in> set (h_rowLengths h)) \<and>
    cmSize h = (if padded then padded_size else numRows) \<and>
    0 \<le> maxrl h \<and> maxrl h * cmSize h \<le> INT_MAX \<and>
    h_valcm h = replicate (nat (maxrl h * cmSize h)) None \<and>
    h_colscm h = replicate (nat (maxrl h * cmSize h)) None"
proof -
  let ?rd = h_rowDelimiters
  define rl0 :: "int option list" where "rl0 = replicate (nat padded_size) None"
  define cm where "cm = (if padded then padded_size else numRows)"
  have ps: "0 \<le> padded_size" using assms(1,2) by simp
  have cm: "0 \<le> cm" "numRows \<le> cm" using assms(1,2) ps by (simp_all add: cm_def)
  have new0: "new_array padded_size = Some rl0" using ps by (simp add: new_array_def rl0_def)
  have len0: "numRows \<le> int (length rl0)" using assms(2) ps by (simp add: rl0_def)
  have nonneg: "0 \<le> ?rd ! Suc i - ?rd ! i" if "i < nat numRows" for i
  proof -
    have "Suc i < length ?rd" using that assms(3) by linarith
    then have "?rd ! i \<le> ?rd ! Suc i" using assms(4) by (simp add: sorted_nth_mono)
    then show ?thesis by simp
  qed
  have prod: "(?rd ! Suc i - ?rd ! i) * cm \<le> INT_MAX" if "i < nat numRows" for i
    using assms(5) that unfolding cm_def by blast
  have small: "?rd ! Suc i - ?rd ! i \<le> INT_MAX" if "i < nat numRows" for i
  proof -
    have "1 \<le> cm" using that cm(2) by linarith
    then have "(?rd ! Suc i - ?rd ! i) * 1 \<le> (?rd ! Suc i - ?rd ! i) * cm"
      using nonneg [OF that] by (intro mult_left_mono) simp_all
    with prod [OF that] show ?thesis by simp
  qed
  have wrap: "int32 (?rd ! Suc i - ?rd ! i) = ?rd ! Suc i - ?rd ! i" if "i < nat numRows" for i
    using nonneg [OF that] small [OF that] by (intro int32_id) (simp_all add: INT_MIN_def)
  from rowLengthsLoop_correct [OF order_refl assms(1) assms(3) len0, of 0]
  obtain rl1 m where l1: "rowLengthsLoop ?rd numRows 0 rl0 0 = Some (rl1, m)"
    "length rl1 = length rl0"
    "\<forall>i. nat 0 \<le> i \<and> i < nat numRows \<longrightarrow> rl1 ! i = Some (int32 (?rd ! Suc i - ?rd ! i))"
    "0 \<le> m"
    "\<forall>i. nat 0 \<le> i \<and> i < nat numRows \<longrightarrow> int32 (?rd ! Suc i - ?rd ! i) \<le> m"
    "m = 0 \<or> (\<exists>i. nat 0 \<le> i \<and> i < nat numRows \<and> m = int32 (?rd ! Suc i - ?rd ! i))"
    by (elim exE conjE) simp
  have r1: "\<forall>i. i < nat numRows \<longrightarrow> rl1 ! i = Some (?rd ! Suc i - ?rd ! i)"
    using l1(3) wrap by simp
  have upper: "\<forall>i. i < nat numRows \<longrightarrow> ?rd ! Suc i - ?rd ! i \<le> m"
    using l1(5) wrap by simp
  have which: "m = 0 \<or> (\<exists>i. i < nat numRows \<and> m = ?rd ! Suc i - ?rd ! i)"
    using l1(6) wrap by auto
  have len1: "padded_size \<le> int (length rl1)" using l1(2) ps by (simp add: rl0_def)
  from padLengthsLoop_correct [OF assms(1) len1]
  obtain rl2 where l2: "padLengthsLoop padded_size numRows rl1 = Some rl2"
    "length rl2 = length rl1"
    "\<forall>i. i < nat numRows \<longrightarrow> rl2 ! i = rl1 ! i"
    "\<forall>i. nat numRows \<le> i \<and> i < nat padded_size \<longrightarrow> rl2 ! i = Some 0"
    by (elim exE conjE) simp
  have mcm: "0 \<le> m * cm" using l1(4) cm(1) by simp
  have mcm_max: "m * cm \<le> INT_MAX"
  proof (cases "m = 0")
    case True
    then show ?thesis by (simp add: INT_MAX_def)
  next
    case False
    with which obtain i where "i < nat numRows" "m = ?rd ! Suc i - ?rd ! i" by blast
    with prod show ?thesis by simp
  qed
  have cells: "int32 (m * cm) = m * cm"
    using mcm mcm_max by (intro int32_id) (simp_all add: INT_MIN_def)
  define h where "h = \<lparr>h_rowLengths = rl2, maxrl = m, cmSize = cm,
     h_valcm = replicate (nat (m * cm)) None, h_colscm = replicate (nat (m * cm)) None\<rparr>"
  have newv: "new_array (m * cm) = Some (replicate (nat (m * cm)) None)"
    using mcm by (simp add: new_array_def)
  have run: "ellPackSetup ?rd numRows padded padded_size = Some h"
    unfolding ellPackSetup_def Let_def cm_def [symmetric] h_def
    by (simp add: new0 l1(1) l2(1) cells newv)
  have len2: "length rl2 = nat padded_size" using l2(2) l1(2) by (simp add: rl0_def)
  have rows: "\<forall>i. i < nat numRows \<longrightarrow> rl2 ! i = Some (?rd ! Suc i - ?rd ! i)"
    using r1 l2(3) by simp
  have bound: "\<forall>i. i < nat padded_size \<longrightarrow> (\<exists>l. rl2 ! i = Some l \<and> l \<le> m)"
  proof (intro allI impI)
    fix i assume i: "i < nat padded_size"
    show "\<exists>l. rl2 ! i = Some l \<and> l \<le> m"
    proof (cases "i < nat numRows")
      case True
      then show ?thesis using rows upper by simp
    next
      case False
      then have "rl2 ! i = Some 0" using i l2(4) by simp
      then show ?thesis using l1(4) by simp
    qed
  qed
  have attained: "Some m \<in> set rl2" if pos: "0 < padded_size"
  proof (cases "\<exists>i. i < nat numRows \<and> m = ?rd ! Suc i - ?rd ! i")
    case True
    then obtain i where i: "i < nat numRows" "m = ?rd ! Suc i - ?rd ! i" by blast
    then have "rl2 ! i = Some m" using rows by simp
    moreover have "i < length rl2" using i(1) assms(2) len2 by linarith
    ultimately show ?thesis by (metis nth_mem)
  next
    case False
    with which have m0: "m = 0" by auto
    show ?thesis
    proof (cases "numRows < padded_size")
      case True
      then have "nat numRows < nat padded_size" using assms(1) by simp
      then have "rl2 ! nat numRows = Some 0" "nat numRows < length rl2"
        using l2(4) len2 by simp_all
      then show ?thesis unfolding m0 by (metis nth_mem)
    next
      case False
      with assms(2) pos have z: "0 < nat numRows" by simp
      have "?rd ! Suc 0 - ?rd ! 0 \<le> 0" using upper z m0 by simp
      with nonneg [OF z] have "?rd ! Suc 0 - ?rd ! 0 = 0" by simp
      then have "rl2 ! 0 = Some 0" using rows z by simp
      moreover have "0 < length rl2" using len2 pos by simp
      ultimately show ?thesis unfolding m0 by (metis nth_mem)
    qed
  qed
  show ?thesis
  proof (intro exI [of _ h] conjI)
    show "ellPackSetup ?rd numRows padded padded_size = Some h" by (rule run)
    show "length (h_rowLengths h) = nat padded_size" by (simp add: h_def len2)
    show "\<forall>i. i < nat numRows \<longrightarrow> h_rowLengths h ! i = Some (?rd ! Suc i - ?rd ! i)"
      using rows by (simp add: h_def)
    show "\<forall>i. nat numRows \<le> i \<and> i < nat padded_size \<longrightarrow> h_rowLengths h ! i = Some 0"
      using l2(4) by (simp add: h_def)
    show "\<forall>i. i < nat padded_size \<longrightarrow> (\<exists>l. h_rowLengths h ! i = Some l \<and> l \<le> maxrl h)"
      using bound by (simp add: h_def)
    show "0 < padded_size \<longrightarrow> Some (maxrl h) \<in> set (h_rowLengths h)"
      using attained by (simp add: h_def)
    show "cmSize h = (if padded then padded_size else numRows)" by (simp add: h_def cm_def)
    show "0 \<le> maxrl h" using l1(4) by (simp add: h_def)
    show "maxrl h * cmSize h \<le> INT_MAX" using mcm_max by (simp add: h_def)
    show "h_valcm h = replicate (nat (maxrl h * cmSize h)) None" by (simp add: h_def)
    show "h_colscm h = replicate (nat (maxrl h * cmSize h)) None" by (simp add: h_def)
  qed
qed

text \<open>The linear index \<open>k * rows + r\<close> of a slot determines the row and the slot.\<close>

lemma colMajorSource_unfilled:
  assumes "r < rows" and "int r < numRows \<longrightarrow> idx rd (int r + 1) - idx rd (int r) \<le> int k"
  shows "colMajorSource rd numRows (int rows) (k * rows + r) = None"
proof -
  have "int (k * rows + r) = int k * int rows + int r" by simp
  moreover have "0 \<le> int r" "int r < int rows" using assms(1) by simp_all
  ultimately have "int (k * rows + r) mod int rows = int r"
    "int (k * rows + r) div int rows = int k"
    by simp_all
  then show ?thesis
    using assms(2) by (auto simp: colMajorSource_def Let_def)
qed

lemma ellPackHostData_correct:
  assumes "0 \<le> numRows" and "numRows \<le> padded_size"
    and "numRows + 1 \<le> int (length h_rowDelimiters)" and "sorted h_rowDelimiters"
    and "\<forall>i. i < nat numRows \<longrightarrow>
           (h_rowDelimiters ! Suc i - h_rowDelimiters ! i) *
             (if padded then padded_size else numRows) \<le> INT_MAX"
  shows "\<exists>h. ellPackHostData h_val h_cols h_rowDelimiters numRows padded padded_size = Some h \<and>
    length (h_rowLengths h) = nat padded_size \<and>
    (\<forall>i. i < nat numRows \<longrightarrow>
       h_rowLengths h ! i = Some (h_rowDelimiters ! Suc i - h_rowDelimiters ! i)) \<and>
    (\<forall>i. nat numRows \<le> i \<and> i < nat padded_size \<longrightarrow> h_rowLengths h ! i = Some 0) \<and>
    (\<forall>i. i < nat padded_size \<longrightarrow> (\<exists>l. h_rowLengths h ! i = Some l \<and> l \<le> maxrl h)) \<and>
    (0 < padded_size \<longrightarrow> Some (maxrl h) \<in> set (h_rowLengths h)) \<and>
    cmSize h = (if padded then padded_size else numRows) \<and>
    maxrl h * cmSize h \<le> INT_MAX \<and>
    length (h_valcm h) = nat (maxrl h * cmSize h) \<and>
    length (h_colscm h) = nat (maxrl h * cmSize h) \<and>
    (\<forall>r k len. r < nat (cmSize h) \<and> k < nat (maxrl h) \<and>
       h_rowLengths h ! r = Some len \<and> len \<le> int k \<longrightarrow>
       h_valcm h ! (k * nat (cmSize h) + r) = Some 0 \<and>
       h_colscm h ! (k * nat (cmSize h) + r) = Some 0)"
proof -
  let ?rd = h_rowDelimiters
  from ellPackSetup_correct [OF assms]
  obtain h0 where h0: "ellPackSetup ?rd numRows padded padded_size = Some h0"
    "length (h_rowLengths h0) = nat padded_size"
    "\<forall>i. i < nat numRows \<longrightarrow> h_rowLengths h0 ! i = Some (?rd ! Suc i - ?rd ! i)"
    "\<forall>i. nat numRows \<le> i \<and> i < nat padded_size \<longrightarrow> h_rowLengths h0 ! i = Some 0"
    "\<forall>i. i < nat padded_size \<longrightarrow> (\<exists>l. h_rowLengths h0 ! i = Some l \<and> l \<le> maxrl h0)"
    "0 < padded_size \<longrightarrow> Some (maxrl h0) \<in> set (h_rowLengths h0)"
    "cmSize h0 = (if padded then padded_size else numRows)"
    "0 \<le> maxrl h0" "maxrl h0 * cmSize h0 \<le> INT_MAX"
    "h_valcm h0 = replicate (nat (maxrl h0 * cmSize h0)) None"
    "h_colscm h0 = replicate (nat (maxrl h0 * cmSize h0)) None"
    by blast
  define h where "h = convertToColMajor h_val h_cols numRows ?rd h0"
  define rows where "rows = nat (cmSize h0)"
  have same: "h_rowLengths h = h_rowLengths h0" "maxrl h = maxrl h0" "cmSize h = cmSize h0"
    by (simp_all add: h_def convertToColMajor_def)
  have cm0: "0 \<le> cmSize h0" using h0(7) assms(1,2) by simp
  have cm_rows: "cmSize h0 = int rows" using cm0 by (simp add: rows_def)
  have cells: "nat (maxrl h0 * cmSize h0) = nat (maxrl h0) * rows"
    using h0(8) cm0 by (simp add: rows_def nat_mult_distrib)
  have lens: "length (h_valcm h) = nat (maxrl h0 * cmSize h0)"
    "length (h_colscm h) = nat (maxrl h0 * cmSize h0)"
    by (simp_all add: h_def convertToColMajor_def h0(10,11))
  have run: "ellPackHostData h_val h_cols ?rd numRows padded padded_size = Some h"
    by (simp add: ellPackHostData_def h0(1) h_def)
  have zero: "h_valcm h ! (k * rows + r) = Some 0 \<and> h_colscm h ! (k * rows + r) = Some 0"
    if r: "r < rows" and k: "k < nat (maxrl h0)"
      and len: "h_rowLengths h0 ! r = Some len" "len \<le> int k" for r k len
  proof -
    have "k * rows + r < Suc k * rows" using r by simp
    also have "\<dots> \<le> nat (maxrl h0) * rows" using k by (intro mult_le_mono1) simp
    finally have p: "k * rows + r < nat (maxrl h0 * cmSize h0)" using cells by simp
    have "idx ?rd (int r + 1) - idx ?rd (int r) \<le> int k" if "int r < numRows"
    proof -
      have rn: "r < nat numRows" using that by simp
      have "nat (int r + 1) = Suc r" by simp
      then have "idx ?rd (int r + 1) - idx ?rd (int r) = ?rd ! Suc r - ?rd ! r"
        by (simp add: idx_def)
      also have "\<dots> = len" using h0(3) rn len(1) by simp
      finally show ?thesis using len(2) by simp
    qed
    then have src: "colMajorSource ?rd numRows (cmSize h0) (k * rows + r) = None"
      unfolding cm_rows using colMajorSource_unfilled [OF r] by blast
    show ?thesis
      using p src by (simp add: h_def convertToColMajor_def h0(10,11))
  qed
  show ?thesis
  proof (intro exI [of _ h] conjI)
    show "ellPackHostData h_val h_cols ?rd numRows padded padded_size = Some h" by (rule run)
    show "length (h_rowLengths h) = nat padded_size" using h0(2) by (simp add: same)
    show "\<forall>i. i < nat numRows \<longrightarrow> h_rowLengths h ! i = Some (?rd ! Suc i - ?rd ! i)"
      using h0(3) by (simp add: same)
    show "\<forall>i. nat numRows \<le> i \<and> i < nat padded_size \<longrightarrow> h_rowLengths h ! i = Some 0"
      using h0(4) by (simp add: same)
    show "\<forall>i. i < nat padded_size \<longrightarrow> (\<exists>l. h_rowLengths h ! i = Some l \<and> l \<le> maxrl h)"
      using h0(5) by (simp add: same)
    show "0 < padded_size \<longrightarrow> Some (maxrl h) \<in> set (h_rowLengths h)"
      using h0(6) by (simp add: same)
    show "cmSize h = (if padded then padded_size else numRows)" using h0(7) by (simp add: same)
    show "maxrl h * cmSize h \<le> INT_MAX" using h0(9) by (simp add: same)
    show "length (h_valcm h) = nat (maxrl h * cmSize h)" using lens(1) by (simp add: same)
    show "length (h_colscm h) = nat (maxrl h * cmSize h)" using lens(2) by (simp add: same)
    show "\<forall>r k len. r < nat (cmSize h) \<and> k < nat (maxrl h) \<and>
       h_rowLengths h ! r = Some len \<and> len \<le> int k \<longrightarrow>
       h_valcm h ! (k * nat (cmSize h) + r) = Some 0 \<and>
       h_colscm h ! (k * nat (cmSize h) + r) = Some 0"
      unfolding same rows_def [symmetric] using zero by blast
  qed
qed

text \<open>
  The \<open>int\<close> product of the allocation can overflow although every input is in range:
  two rows, the first with \<open>2\<^sup>3\<^sup>0\<close> entries, give \<open>maxrl * cmSize = 2\<^sup>3\<^sup>1\<close>, which
  two's-complement arithmetic turns into a negative element count, and \<open>new\<close> throws.
\<close>

lemma ellPackSetup_product_overflows:
  "ellPackSetup [0, 1073741824, 2147483647] 2 False 2 = None"
  by code_simp

text \<open>
  C3 as stated fails: the arrays have \<open>maxrl * cmSize\<close> cells, and \<open>cmSize\<close> is the
  padded row count only when the flag \<open>padded\<close> is set. \<open>RunTest\<close> passes
  \<open>padded = false\<close>. With one row of one entry padded to two rows, the arrays have one
  cell, not two.
\<close>

theorem ellPackHostData_unpadded_size:
  "ellPackHostData [Fin 5] [0] [0, 1] 1 False 2 =
     Some \<lparr>h_rowLengths = [Some 1, Some 0], maxrl = 1, cmSize = 1,
            h_valcm = [Some (Fin 5)], h_colscm = [Some 0]\<rparr> \<and>
   length [Some (Fin 5)] \<noteq> nat (1 * 2)"
  by code_simp

text \<open>
  C3, amended. For a row-delimiter array with at least \<open>numRows + 1\<close> non-decreasing
  entries and \<open>numRows \<le> paddedSize\<close>, the set-up returns with
  \<open>h_rowLengths[i] = h_rowDelimiters[i+1] - h_rowDelimiters[i]\<close> for \<open>i < numRows\<close>,
  \<open>h_rowLengths[i] = 0\<close> for \<open>numRows \<le> i < paddedSize\<close>, and \<open>maxrl\<close> the maximum
  of all row lengths. The two column-major arrays have \<open>maxrl * cmSize\<close> cells, where
  \<open>cmSize\<close> is \<open>paddedSize\<close> if \<open>padded\<close> is set and \<open>numRows\<close> otherwise, provided
  that no row length times \<open>cmSize\<close> exceeds \<open>INT_MAX\<close>. After \<open>convertToColMajor\<close>
  (modelled from the specification) every unfilled slot, that is every slot \<open>k\<close> of a
  row \<open>r\<close> with \<open>h_rowLengths[r] \<le> k < maxrl\<close>, holds the value 0 and the column
  index 0.
\<close>

theorem ellPackHostData_layout:
  assumes "0 \<le> numRows" and "numRows \<le> padded_size" and "padded_size \<le> INT_MAX"
    and "numRows + 1 \<le> int (length h_rowDelimiters)" and "sorted h_rowDelimiters"
    and "\<forall>i. i < nat numRows \<longrightarrow>
           (h_rowDelimiters ! Suc i - h_rowDelimiters ! i) *
             (if padded then padded_size else numRows) \<le> INT_MAX"
  shows "\<exists>h. ellPackHostData h_val h_cols h_rowDelimiters numRows padded padded_size = Some h \<and>
    length (h_rowLengths h) = nat padded_size \<and>
    (\<forall>i. i < nat numRows \<longrightarrow>
       h_rowLengths h ! i = Some (h_rowDelimiters ! Suc i - h_rowDelimiters ! i)) \<and>
    (\<forall>i. nat numRows \<le> i \<and> i < nat padded_size \<longrightarrow> h_rowLengths h ! i = Some 0) \<and>
    (\<forall>i. i < nat padded_size \<longrightarrow> (\<exists>l. h_rowLengths h ! i = Some l \<and> l \<le> maxrl h)) \<and>
    (0 < padded_size \<longrightarrow> Some (maxrl h) \<in> set (h_rowLengths h)) \<and>
    cmSize h = (if padded then padded_size else numRows) \<and>
    maxrl h * cmSize h \<le> INT_MAX \<and>
    length (h_valcm h) = nat (maxrl h * cmSize h) \<and>
    length (h_colscm h) = nat (maxrl h * cmSize h) \<and>
    (\<forall>r k len. r < nat (cmSize h) \<and> k < nat (maxrl h) \<and>
       h_rowLengths h ! r = Some len \<and> len \<le> int k \<longrightarrow>
       h_valcm h ! (k * nat (cmSize h) + r) = Some 0 \<and>
       h_colscm h ! (k * nat (cmSize h) + r) = Some 0)"
  using ellPackHostData_correct [OF assms(1,2,4,5,6)] .

text \<open>
  Scenario 3 of the specification: rows of lengths 1, 3, 0, 2, padded to 6 rows, give
  \<open>maxrl = 3\<close>; the three slots of row 2 hold the value 0 and the column index 0.
\<close>

theorem ellPackHostData_layout_witness:
  "(0::int) \<le> 4 \<and> (4::int) \<le> 6 \<and> (6::int) \<le> INT_MAX \<and>
   (4::int) + 1 \<le> int (length [0, 1, 4, 4, 6 :: int]) \<and> sorted [0, 1, 4, 4, 6 :: int] \<and>
   (\<exists>h. ellPackHostData [Fin 1, Fin 2, Fin 3, Fin 4, Fin 5, Fin 6] [0, 1, 2, 3, 1, 2]
           [0, 1, 4, 4, 6] 4 True 6 = Some h \<and>
      h_rowLengths h = [Some 1, Some 3, Some 0, Some 2, Some 0, Some 0] \<and>
      maxrl h = 3 \<and> cmSize h = 6 \<and> length (h_valcm h) = 18 \<and> length (h_colscm h) = 18 \<and>
      h_valcm h ! (0 * 6 + 2) = Some 0 \<and> h_valcm h ! (1 * 6 + 2) = Some 0 \<and>
      h_valcm h ! (2 * 6 + 2) = Some 0 \<and> h_colscm h ! (2 * 6 + 2) = Some 0 \<and>
      h_valcm h ! (2 * 6 + 1) = Some (Fin 4))"
proof -
  have hyps: "(0::int) \<le> 4" "(4::int) \<le> 6" "(6::int) \<le> INT_MAX"
    "(4::int) + 1 \<le> int (length [0, 1, 4, 4, 6 :: int])" "sorted [0, 1, 4, 4, 6 :: int]"
    by (simp_all add: INT_MAX_def)
  have prod: "\<forall>i. i < nat 4 \<longrightarrow>
      ([0, 1, 4, 4, 6 :: int] ! Suc i - [0, 1, 4, 4, 6] ! i) * (if True then 6 else 4) \<le> INT_MAX"
  proof (intro allI impI)
    fix i :: nat assume "i < nat 4"
    then have "i = 0 \<or> i = 1 \<or> i = 2 \<or> i = 3" by auto
    then show "([0, 1, 4, 4, 6 :: int] ! Suc i - [0, 1, 4, 4, 6] ! i) * (if True then 6 else 4) \<le> INT_MAX"
      by (auto simp: INT_MAX_def)
  qed
  from ellPackHostData_layout [OF hyps prod, of "[Fin 1, Fin 2, Fin 3, Fin 4, Fin 5, Fin 6]" "[0, 1, 2, 3, 1, 2]"]
  obtain h where h: "ellPackHostData [Fin 1, Fin 2, Fin 3, Fin 4, Fin 5, Fin 6] [0, 1, 2, 3, 1, 2]
      [0, 1, 4, 4, 6] 4 True 6 = Some h" by blast
  have "case ellPackHostData [Fin 1, Fin 2, Fin 3, Fin 4, Fin 5, Fin 6] [0, 1, 2, 3, 1, 2]
      [0, 1, 4, 4, 6] 4 True 6 of
      None \<Rightarrow> False
    | Some h \<Rightarrow>
      h_rowLengths h = [Some 1, Some 3, Some 0, Some 2, Some 0, Some 0] \<and>
      maxrl h = 3 \<and> cmSize h = 6 \<and> length (h_valcm h) = 18 \<and> length (h_colscm h) = 18 \<and>
      h_valcm h ! (0 * 6 + 2) = Some 0 \<and> h_valcm h ! (1 * 6 + 2) = Some 0 \<and>
      h_valcm h ! (2 * 6 + 2) = Some 0 \<and> h_colscm h ! (2 * 6 + 2) = Some 0 \<and>
      h_valcm h ! (2 * 6 + 1) = Some (Fin 4)"
    by code_simp
  with h hyps show ?thesis by simp
qed

section \<open>Properties of the benchmark runs\<close>

declare runPasses.simps [simp del]
declare vectorLocalWorkSize.simps [simp del]

lemma verifyLoop_prefix:
  "0 \<le> i \<Longrightarrow> n \<le> int (length g) \<Longrightarrow>
   verifyLoop t c (take (nat n) g @ r) n i p = verifyLoop t c g n i p"
proof (induction t c g n i p rule: verifyLoop.induct)
  case (1 t c g n i p)
  let ?g' = "take (nat n) g @ r"
  show ?case
  proof (cases "i < n")
    case False
    then show ?thesis
      by (subst verifyLoop.simps, subst (2) verifyLoop.simps) simp
  next
    case True
    have ig: "in_bounds i g" "in_bounds i ?g'"
      using True "1.prems" by (simp_all add: in_bounds_def)
    have nth: "idx ?g' i = idx g i"
      using True "1.prems" by (simp add: idx_def nth_append)
    show ?thesis
    proof (cases "in_bounds i c")
      case False
      then show ?thesis
        by (subst verifyLoop.simps, subst (2) verifyLoop.simps) simp
    next
      case c: True
      have i1: "0 \<le> i + 1" using "1.prems"(1) by simp
      have ih: "verifyLoop t c ?g' n (i + 1) (if mismatch t (idx c i) (idx g i) then False else p) =
          verifyLoop t c g n (i + 1) (if mismatch t (idx c i) (idx g i) then False else p)"
        using "1.IH" [OF True _ i1 "1.prems"(2)] c ig(1) by simp
      have l: "verifyLoop t c ?g' n i p =
          verifyLoop t c ?g' n (i + 1) (if mismatch t (idx c i) (idx g i) then False else p)"
        by (subst verifyLoop.simps) (simp add: True c ig(2) nth)
      have r: "verifyLoop t c g n i p =
          verifyLoop t c g n (i + 1) (if mismatch t (idx c i) (idx g i) then False else p)"
        by (subst verifyLoop.simps) (simp add: True c ig(1))
      show ?thesis unfolding l r by (rule ih)
    qed
  qed
qed

lemma verifyResults_readBuffer:
  "readBuffer n d h = Some out \<Longrightarrow> verifyResults c out n k = verifyResults c d n k"
  by (auto simp: readBuffer_def verifyResults_def verifyLoop_prefix split: if_splits)

lemma list_all_pass_events:
  "list_all (pass_event dev kern g l nm atts n ref) (pass_events dev kern g l n k passed)"
  by (simp add: pass_events_def list_all_iff verifyResults_message_def)

lemma runPasses_events:
  "runPasses dev kern g l nm atts n ref i w = Some (fin, w') \<Longrightarrow> 0 \<le> i \<Longrightarrow>
   (\<forall>q. 0 \<le> q \<and> q < i \<longrightarrow> verified dev ref n nm q) \<Longrightarrow>
   \<exists>evs. trace w' = trace w @ evs \<and> list_all (pass_event dev kern g l nm atts n ref) evs"
proof (induction dev kern g l nm atts n ref i w rule: runPasses.induct)
  case (1 dev kern g l nm atts n ref i w)
  show ?case
  proof (cases "i < option_passes dev")
    case False
    with "1.prems"(1) have "w' = w" by (subst (asm) runPasses.simps) simp
    then show ?thesis by simp
  next
    case True
    from "1.prems"(1) True obtain out where
      rb: "readBuffer n (device_output dev nm i) (h_out w) = Some out"
      by (subst (asm) runPasses.simps) (auto split: option.splits)
    from "1.prems"(1) True rb obtain passed where
      vr: "verifyResults ref out n i = Some passed"
      by (subst (asm) runPasses.simps) (auto split: option.splits)
    let ?pe = "pass_events dev kern g l n i passed"
    show ?thesis
    proof (cases passed)
      case False
      with "1.prems"(1) True rb vr have "w' = emit ?pe (w\<lparr>h_out := out\<rparr>)"
        by (subst (asm) runPasses.simps) simp
      then have "trace w' = trace w @ ?pe" by (simp add: emit_def)
      then show ?thesis using list_all_pass_events by blast
    next
      case passed: True
      let ?add = "[AddResult nm atts ''Gflop/s'' i, AddResult (nm @ ''_PCIe'') atts ''Gflop/s'' i]"
      let ?w1 = "emit (?pe @ ?add) (w\<lparr>h_out := out\<rparr>)"
      have rec: "runPasses dev kern g l nm atts n ref (i + 1) ?w1 = Some (fin, w')"
        using "1.prems"(1) True rb vr passed by (subst (asm) runPasses.simps) simp
      have vi: "verified dev ref n nm i"
        using vr passed verifyResults_readBuffer [OF rb] by (simp add: verified_def)
      have hist: "\<forall>q. 0 \<le> q \<and> q < i + 1 \<longrightarrow> verified dev ref n nm q"
      proof (intro allI impI)
        fix q assume q: "0 \<le> q \<and> q < i + 1"
        show "verified dev ref n nm q"
        proof (cases "q = i")
          case True
          then show ?thesis using vi by simp
        next
          case False
          then have "0 \<le> q \<and> q < i" using q by simp
          then show ?thesis using "1.prems"(3) by blast
        qed
      qed
      have hist': "\<forall>q. 0 \<le> q \<and> q \<le> i \<longrightarrow> verified dev ref n nm q"
        using hist by simp
      have i1: "0 \<le> i + 1" using "1.prems"(2) by simp
      have np: "\<not> \<not> passed" using passed by simp
      from "1.IH" [OF True rb vr np rec i1 hist]
      obtain evs where evs: "trace w' = trace ?w1 @ evs"
        "list_all (pass_event dev kern g l nm atts n ref) evs" by blast
      have "list_all (pass_event dev kern g l nm atts n ref) ?add"
        using hist' "1.prems"(2) by simp
      then have "list_all (pass_event dev kern g l nm atts n ref) (?pe @ ?add @ evs)"
        using list_all_pass_events [of dev kern g l nm atts n ref i passed] evs(2)
        by (simp only: list_all_append simp_thms)
      moreover have "trace w' = trace w @ (?pe @ ?add @ evs)"
        using evs(1) by (simp add: emit_def)
      ultimately show ?thesis by blast
    qed
  qed
qed

lemma runPasses_events0:
  "runPasses dev kern g l nm atts n ref 0 w = Some (fin, w') \<Longrightarrow>
   \<exists>evs. trace w' = trace w @ evs \<and> list_all (pass_event dev kern g l nm atts n ref) evs"
proof -
  assume r: "runPasses dev kern g l nm atts n ref 0 w = Some (fin, w')"
  have "\<forall>q. 0 \<le> q \<and> q < (0::int) \<longrightarrow> verified dev ref n nm q" by auto
  from runPasses_events [OF r order_refl this] show ?thesis .
qed

lemma pass_event_csr_scalar:
  "pass_event dev Kernel_csrScalar n l nm (nnz, n) n ref e \<Longrightarrow> csr_event n nnz v e"
  by (cases e) (auto simp: headings_def)

lemma pass_event_csr_vector:
  "pass_event dev Kernel_csrVector (n * int v) l nm (nnz, n) n ref e \<Longrightarrow> csr_event n nnz v e"
  by (cases e) (auto simp: headings_def)

lemma pass_event_justified:
  "nm \<in> set test_names \<Longrightarrow> pass_event dev kern g l nm atts n ref e \<Longrightarrow> justified dev ref n e"
  by (cases e) auto

lemma pass_event_no_heading:
  "pass_event dev kern g l nm atts n ref e \<Longrightarrow> no_heading e"
  by (cases e) (auto simp: headings_def)

lemma csrTest_fixed_csr_event:
  "e \<in> set (csrTest_fixed n nnz) \<Longrightarrow> csr_event n nnz v e"
  by (auto simp: csrTest_fixed_def csrTest_setup_def csrTest_releases_def headings_def)

lemma csrTest_fixed_justified:
  "e \<in> set (csrTest_fixed n nnz) \<Longrightarrow> justified dev ref m e"
  by (auto simp: csrTest_fixed_def csrTest_setup_def csrTest_releases_def)

lemma ellPackTest_fixed_justified:
  "e \<in> set (ellPackTest_fixed h n ps) \<Longrightarrow> justified dev ref m e \<and> no_heading e"
  by (auto simp: ellPackTest_fixed_def ellPackTest_setup_def ellPackTest_releases_def headings_def)

lemma csr_test_name:
  "(if padded then ''Padded_'' else []) @ ''CSR-Scalar-SP'' \<in> set test_names"
  "(if padded then ''Padded_'' else []) @ ''CSR-Vector-SP'' \<in> set test_names"
  by (simp_all add: test_names_def)

text \<open>The events of one call of \<open>csrTest\<close>.\<close>

lemma csrTest_events:
  assumes "csrTest dev n nnz ref padded w = Some w'"
  shows "\<exists>evs. trace w' = trace w @ Create Program 0 # evs \<and>
           list_all (csr_event n nnz (VECTOR_SIZE dev)) evs \<and>
           list_all (justified dev ref n) evs"
proof -
  define good where "good es =
    (list_all (csr_event n nnz (VECTOR_SIZE dev)) es \<and> list_all (justified dev ref n) es)" for es
  have app: "good (a @ b)" if "good a" "good b" for a b
    using that by (simp add: good_def)
  have fixed: "good es" if "set es \<subseteq> set (csrTest_fixed n nnz)" for es
    using that csrTest_fixed_csr_event csrTest_fixed_justified
    by (auto simp: good_def list_all_iff)
  define pre where "pre = (if padded then ''Padded_'' else [])"
  let ?sc = "pre @ ''CSR-Scalar-SP''" and ?vc = "pre @ ''CSR-Vector-SP''"
  have names: "?sc \<in> set test_names" "?vc \<in> set test_names"
    unfolding pre_def by (rule csr_test_name)+
  have scal: "good es"
    if "list_all (pass_event dev Kernel_csrScalar n (BLOCK_SIZE dev) ?sc (nnz, n) n ref) es" for es
    using that pass_event_csr_scalar pass_event_justified [OF names(1)]
    by (auto simp: good_def list_all_iff)
  have vect: "good es"
    if "list_all (pass_event dev Kernel_csrVector (n * int (VECTOR_SIZE dev)) l ?vc (nnz, n) n ref) es" for es l
    using that pass_event_csr_vector pass_event_justified [OF names(2)]
    by (auto simp: good_def list_all_iff)
  have fin: ?thesis if "trace w' = trace w @ Create Program 0 # es" "good es" for es
    using that unfolding good_def by blast
  define initial where "initial = tl (csrTest_setup n nnz)"
  have init_eq: "csrTest_setup n nnz = Create Program 0 # initial"
    by (simp add: initial_def csrTest_setup_def)
  show ?thesis
  proof (cases "build_succeeds dev")
    case False
    with assms have "trace w' = trace w @ [Create Program 0, Print ''Retsize: '', Print ''Log: '']"
      by (auto simp: csrTest_def emit_def)
    moreover have "good [Print ''Retsize: '', Print ''Log: '']"
      by (rule fixed) (simp add: csrTest_fixed_def)
    ultimately show ?thesis by (rule fin)
  next
    case True
    let ?w1 = "emit (csrTest_setup n nnz) w"
    from assms True obtain sd w2 where
      r1: "runPasses dev Kernel_csrScalar n (BLOCK_SIZE dev) ?sc (nnz, n) n ref 0 ?w1 = Some (sd, w2)"
      and rest: "(if \<not> sd then Some w2
        else (let w3 = emit [WriteBuffer Mem_d_out n, Print ''CSR Vector Kernel''] w2 in
          if max_work_group_size dev < 32
          then Some (emit ([Print ''Warning: CSRVector requires a work group size >= 32'',
                            Print ''Skipping this kernel.''] @ csrTest_releases) w3)
          else vectorLocalWorkSize (VECTOR_SIZE dev) (BLOCK_SIZE dev) (max_work_group_size dev)
                 (VECTOR_SIZE dev) \<bind>
               (\<lambda>l. runPasses dev Kernel_csrVector (n * int (VECTOR_SIZE dev)) l ?vc (nnz, n) n ref 0 w3 \<bind>
                 (\<lambda>(vd, w4). if \<not> vd then Some w4 else Some (emit csrTest_releases w4))))) = Some w'"
      unfolding csrTest_def pre_def Let_def
      by (auto split: Option.bind_splits prod.splits if_splits)
    from runPasses_events0 [OF r1] obtain evs1 where
      e1: "trace w2 = trace ?w1 @ evs1"
        "list_all (pass_event dev Kernel_csrScalar n (BLOCK_SIZE dev) ?sc (nnz, n) n ref) evs1"
      by auto
    have t2: "trace w2 = trace w @ Create Program 0 # (initial @ evs1)"
      using e1(1) by (simp add: emit_def init_eq)
    have "good initial"
      by (rule fixed) (auto simp: csrTest_fixed_def init_eq)
    then have g2: "good (initial @ evs1)"
      using scal [OF e1(2)] by (rule app)
    show ?thesis
    proof (cases sd)
      case False
      with rest have "w' = w2" by simp
      then have "trace w' = trace w @ Create Program 0 # (initial @ evs1)" using t2 by simp
      then show ?thesis using g2 by (rule fin)
    next
      case sd: True
      let ?mid = "[WriteBuffer Mem_d_out n, Print ''CSR Vector Kernel'']"
      let ?w3 = "emit ?mid w2"
      have "good ?mid" by (rule fixed) (simp add: csrTest_fixed_def)
      with g2 have g3: "good ((initial @ evs1) @ ?mid)" by (rule app)
      have t3: "trace ?w3 = trace w @ Create Program 0 # ((initial @ evs1) @ ?mid)"
        using t2 by (simp add: emit_def)
      show ?thesis
      proof (cases "max_work_group_size dev < 32")
        case True
        let ?skip = "[Print ''Warning: CSRVector requires a work group size >= 32'',
                      Print ''Skipping this kernel.''] @ csrTest_releases"
        from rest sd True have "w' = emit ?skip ?w3" by (simp add: Let_def)
        then have "trace w' = trace w @ Create Program 0 # (((initial @ evs1) @ ?mid) @ ?skip)"
          using t3 by (simp add: emit_def)
        moreover have "good ?skip" by (rule fixed) (auto simp: csrTest_fixed_def)
        with g3 have "good (((initial @ evs1) @ ?mid) @ ?skip)" by (rule app)
        ultimately show ?thesis by (rule fin)
      next
        case False
        from rest sd False obtain l vd w4 where
          r2: "runPasses dev Kernel_csrVector (n * int (VECTOR_SIZE dev)) l ?vc (nnz, n) n ref 0 ?w3 = Some (vd, w4)"
          and last: "(if \<not> vd then Some w4 else Some (emit csrTest_releases w4)) = Some w'"
          by (auto simp: Let_def split: Option.bind_splits prod.splits)
        from runPasses_events0 [OF r2] obtain evs2 where
          e2: "trace w4 = trace ?w3 @ evs2"
            "list_all (pass_event dev Kernel_csrVector (n * int (VECTOR_SIZE dev)) l ?vc (nnz, n) n ref) evs2"
          by auto
        have t4: "trace w4 = trace w @ Create Program 0 # (((initial @ evs1) @ ?mid) @ evs2)"
          using e2(1) t3 by simp
        have g4: "good (((initial @ evs1) @ ?mid) @ evs2)"
          using g3 vect [OF e2(2)] by (rule app)
        show ?thesis
        proof (cases vd)
          case False
          with last have "w' = w4" by simp
          then have "trace w' = trace w @ Create Program 0 # (((initial @ evs1) @ ?mid) @ evs2)"
            using t4 by simp
          then show ?thesis using g4 by (rule fin)
        next
          case True
          with last have "w' = emit csrTest_releases w4" by simp
          then have "trace w' = trace w @ Create Program 0 # ((((initial @ evs1) @ ?mid) @ evs2) @ csrTest_releases)"
            using t4 by (simp add: emit_def)
          moreover have "good csrTest_releases" by (rule fixed) (auto simp: csrTest_fixed_def)
          with g4 have "good ((((initial @ evs1) @ ?mid) @ evs2) @ csrTest_releases)"
            by (rule app)
          ultimately show ?thesis by (rule fin)
        qed
      qed
    qed
  qed
qed

text \<open>The events of one call of \<open>ellPackTest\<close> as \<open>RunTest\<close> makes it (not padded).\<close>

lemma ellPackTest_events:
  assumes "ellPackTest dev rd n nnz ref False ps w = Some w'"
  shows "\<exists>evs. trace w' = trace w @ Create Program 0 # evs \<and>
           list_all no_heading evs \<and> list_all (justified dev ref n) evs"
proof -
  define good where "good es = (list_all no_heading es \<and> list_all (justified dev ref n) es)" for es
  have app: "good (a @ b)" if "good a" "good b" for a b
    using that by (simp add: good_def)
  have fixed: "good es" if "set es \<subseteq> set (ellPackTest_fixed h n ps)" for es h
    using that ellPackTest_fixed_justified by (auto simp: good_def list_all_iff)
  have fin: ?thesis if "trace w' = trace w @ Create Program 0 # es" "good es" for es
    using that unfolding good_def by blast
  have name: "''ELLPACKR-SP'' \<in> set test_names" by (simp add: test_names_def)
  show ?thesis
  proof (cases "build_succeeds dev")
    case False
    with assms have "trace w' = trace w @ [Create Program 0, Print ''Retsize: '', Print ''Log: '']"
      by (auto simp: ellPackTest_def emit_def)
    moreover have "good [Print ''Retsize: '', Print ''Log: '']"
      by (rule fixed) (simp add: ellPackTest_fixed_def)
    ultimately show ?thesis by (rule fin)
  next
    case True
    from assms True obtain h fd w2 where
      r: "runPasses dev Kernel_ellpackr (cmSize h) (BLOCK_SIZE dev) ''ELLPACKR-SP'' (nnz, cmSize h)
            n ref 0 (emit (ellPackTest_setup h n ps) w) = Some (fd, w2)"
      and last: "(if \<not> fd then Some w2 else Some (emit ellPackTest_releases w2)) = Some w'"
      unfolding ellPackTest_def
      by (auto split: Option.bind_splits prod.splits if_splits)
    define initial where "initial = tl (ellPackTest_setup h n ps)"
    have init_eq: "ellPackTest_setup h n ps = Create Program 0 # initial"
      by (simp add: initial_def ellPackTest_setup_def)
    from runPasses_events0 [OF r] obtain evs where
      e: "trace w2 = trace (emit (ellPackTest_setup h n ps) w) @ evs"
        "list_all (pass_event dev Kernel_ellpackr (cmSize h) (BLOCK_SIZE dev) ''ELLPACKR-SP''
           (nnz, cmSize h) n ref) evs"
      by auto
    have "good evs"
      using e(2) pass_event_no_heading pass_event_justified [OF name]
      by (auto simp: good_def list_all_iff)
    moreover have "good initial"
      by (rule fixed [of _ h]) (auto simp: ellPackTest_fixed_def init_eq)
    ultimately have g2: "good (initial @ evs)" by (simp add: app)
    have t2: "trace w2 = trace w @ Create Program 0 # (initial @ evs)"
      using e(1) by (simp add: emit_def init_eq)
    show ?thesis
    proof (cases fd)
      case False
      with last have "w' = w2" by simp
      then have "trace w' = trace w @ Create Program 0 # (initial @ evs)" using t2 by simp
      then show ?thesis using g2 by (rule fin)
    next
      case True
      with last have "w' = emit ellPackTest_releases w2" by simp
      then have "trace w' = trace w @ Create Program 0 # ((initial @ evs) @ ellPackTest_releases)"
        using t2 by (simp add: emit_def)
      moreover have "good ellPackTest_releases"
        by (rule fixed [of _ h]) (auto simp: ellPackTest_fixed_def)
      with g2 have "good ((initial @ evs) @ ellPackTest_releases)" by (rule app)
      ultimately show ?thesis by (rule fin)
    qed
  qed
qed

text \<open>The trace of \<open>RunTest\<close>.\<close>

lemma RunTest_trace:
  assumes "RunTest dev PAD h_val h_cols rd h_vec nItems n nItemsPadded g = Some w"
  shows "\<exists>ref e1 e2 e3.
    spmvCpu h_val h_cols rd h_vec n (replicate (nat n) g) = Some ref \<and>
    trace w =
      [Create Host_h_vec n, Create Host_refOut n, Create Host_h_rowDelimitersPad (n + 1),
       Create Host_h_out (paddedSize PAD n)] @
      [Print ''CSR Test'', Create Program 0] @ e1 @
      [Print ''CSR Test -- Padded Data'', Create Program 0] @ e2 @
      [Print ''ELLPACKR Test'', Create Program 0] @ e3 @
      [Release Host_h_val, Release Host_h_valPad] \<and>
    list_all (csr_event n nItems (VECTOR_SIZE dev)) e1 \<and> list_all (justified dev ref n) e1 \<and>
    list_all (csr_event n nItemsPadded (VECTOR_SIZE dev)) e2 \<and> list_all (justified dev ref n) e2 \<and>
    list_all no_heading e3 \<and> list_all (justified dev ref n) e3"
proof -
  let ?w0 = "\<lparr>trace = [Create Host_h_vec n, Create Host_refOut n,
      Create Host_h_rowDelimitersPad (n + 1), Create Host_h_out (paddedSize PAD n)],
    h_out = replicate (nat (paddedSize PAD n)) g\<rparr>"
  from assms obtain ref w1 w2 w3 where
    ref: "spmvCpu h_val h_cols rd h_vec n (replicate (nat n) g) = Some ref"
    and c1: "csrTest dev n nItems ref False (emit [Print ''CSR Test''] ?w0) = Some w1"
    and c2: "csrTest dev n nItemsPadded ref True (emit [Print ''CSR Test -- Padded Data''] w1) = Some w2"
    and c3: "ellPackTest dev rd n nItems ref False (paddedSize PAD n) (emit [Print ''ELLPACKR Test''] w2) = Some w3"
    and w: "w = emit [Release Host_h_val, Release Host_h_valPad] w3"
    unfolding RunTest_def Let_def
    by (auto split: Option.bind_splits)
  from csrTest_events [OF c1] obtain e1 where
    e1: "trace w1 = trace (emit [Print ''CSR Test''] ?w0) @ Create Program 0 # e1"
      "list_all (csr_event n nItems (VECTOR_SIZE dev)) e1" "list_all (justified dev ref n) e1"
    by blast
  from csrTest_events [OF c2] obtain e2 where
    e2: "trace w2 = trace (emit [Print ''CSR Test -- Padded Data''] w1) @ Create Program 0 # e2"
      "list_all (csr_event n nItemsPadded (VECTOR_SIZE dev)) e2" "list_all (justified dev ref n) e2"
    by blast
  from ellPackTest_events [OF c3] obtain e3 where
    e3: "trace w3 = trace (emit [Print ''ELLPACKR Test''] w2) @ Create Program 0 # e3"
      "list_all no_heading e3" "list_all (justified dev ref n) e3"
    by blast
  have "trace w =
      [Create Host_h_vec n, Create Host_refOut n, Create Host_h_rowDelimitersPad (n + 1),
       Create Host_h_out (paddedSize PAD n)] @
      [Print ''CSR Test'', Create Program 0] @ e1 @
      [Print ''CSR Test -- Padded Data'', Create Program 0] @ e2 @
      [Print ''ELLPACKR Test'', Create Program 0] @ e3 @
      [Release Host_h_val, Release Host_h_valPad]"
    unfolding w using e1(1) e2(1) e3(1) by (simp add: emit_def)
  with ref e1(2,3) e2(2,3) e3(2,3) show ?thesis by blast
qed

text \<open>The test functions return: no array is read or written out of range.\<close>

lemma runPasses_returns:
  "0 \<le> n \<Longrightarrow> n \<le> int (length (h_out w)) \<Longrightarrow> n \<le> int (length ref) \<Longrightarrow>
   (\<forall>k. n \<le> int (length (device_output dev nm k))) \<Longrightarrow>
   \<exists>fin w'. runPasses dev kern g l nm atts n ref i w = Some (fin, w') \<and>
     length (h_out w') = length (h_out w)"
proof (induction dev kern g l nm atts n ref i w rule: runPasses.induct)
  case (1 dev kern g l nm atts n ref i w)
  show ?case
  proof (cases "i < option_passes dev")
    case False
    then have "runPasses dev kern g l nm atts n ref i w = Some (True, w)"
      by (subst runPasses.simps) simp
    then show ?thesis by blast
  next
    case True
    define out where "out = take (nat n) (device_output dev nm i) @ drop (nat n) (h_out w)"
    have dlen: "n \<le> int (length (device_output dev nm i))" using "1.prems"(4) by blast
    have rb: "readBuffer n (device_output dev nm i) (h_out w) = Some out"
      using "1.prems"(1,2) dlen by (simp add: readBuffer_def out_def)
    have olen: "length out = length (h_out w)"
      using "1.prems"(1,2) dlen by (simp add: out_def)
    have "n \<le> int (length out)" using olen "1.prems"(2) by simp
    from verifyResults_eq [OF "1.prems"(3) this]
    obtain passed where vr: "verifyResults ref out n i = Some passed" by blast
    let ?pe = "pass_events dev kern g l n i passed"
    show ?thesis
    proof (cases passed)
      case False
      have "runPasses dev kern g l nm atts n ref i w = Some (False, emit ?pe (w\<lparr>h_out := out\<rparr>))"
        by (subst runPasses.simps) (simp add: True rb vr False)
      moreover have "length (h_out (emit ?pe (w\<lparr>h_out := out\<rparr>))) = length (h_out w)"
        using olen by (simp add: emit_def)
      ultimately show ?thesis by blast
    next
      case passed: True
      let ?w1 = "emit (?pe @ [AddResult nm atts ''Gflop/s'' i, AddResult (nm @ ''_PCIe'') atts ''Gflop/s'' i])
          (w\<lparr>h_out := out\<rparr>)"
      have np: "\<not> \<not> passed" using passed by simp
      have h1: "n \<le> int (length (h_out ?w1))" using olen "1.prems"(2) by (simp add: emit_def)
      from "1.IH" [OF True rb vr np "1.prems"(1) h1 "1.prems"(3,4)]
      obtain fin w' where r: "runPasses dev kern g l nm atts n ref (i + 1) ?w1 = Some (fin, w')"
        "length (h_out w') = length (h_out ?w1)" by blast
      have "runPasses dev kern g l nm atts n ref i w = Some (fin, w')"
        using r(1) passed by (subst runPasses.simps) (simp add: True rb vr)
      moreover have "length (h_out w') = length (h_out w)"
        using r(2) olen by (simp add: emit_def)
      ultimately show ?thesis by blast
    qed
  qed
qed

lemma vectorLocalWorkSize_returns:
  "0 < v \<Longrightarrow> \<exists>l. vectorLocalWorkSize v b m l0 = Some l"
proof (induction v b m l0 rule: vectorLocalWorkSize.induct)
  case (1 v b m l0)
  show ?case
  proof (cases "l0 + v \<le> m \<and> l0 + v \<le> b")
    case True
    from "1.IH" [OF _ True "1.prems"] "1.prems"
    obtain l where "vectorLocalWorkSize v b m (l0 + v) = Some l" by auto
    then have "vectorLocalWorkSize v b m l0 = Some l"
      using True "1.prems" by (subst vectorLocalWorkSize.simps) simp
    then show ?thesis by blast
  next
    case False
    then have "vectorLocalWorkSize v b m l0 = Some l0"
      using "1.prems" by (subst vectorLocalWorkSize.simps) auto
    then show ?thesis by blast
  qed
qed

lemma csrTest_returns:
  assumes "0 \<le> n" and "n \<le> int (length (h_out w))" and "n \<le> int (length ref)"
    and "\<forall>nm k. n \<le> int (length (device_output dev nm k))" and "0 < VECTOR_SIZE dev"
  shows "\<exists>w'. csrTest dev n nnz ref padded w = Some w' \<and> length (h_out w') = length (h_out w)"
proof (cases "build_succeeds dev")
  case False
  then show ?thesis by (simp add: csrTest_def emit_def)
next
  case True
  define pre where "pre = (if padded then ''Padded_'' else [])"
  let ?w1 = "emit (csrTest_setup n nnz) w"
  have out: "\<forall>k. n \<le> int (length (device_output dev nm k))" for nm
    using assms(4) by blast
  have h1: "n \<le> int (length (h_out ?w1))" using assms(2) by (simp add: emit_def)
  from runPasses_returns [OF assms(1) h1 assms(3) out]
  obtain sd w2 where r1: "runPasses dev Kernel_csrScalar n (BLOCK_SIZE dev)
      (pre @ ''CSR-Scalar-SP'') (nnz, n) n ref 0 ?w1 = Some (sd, w2)"
    and l2: "length (h_out w2) = length (h_out ?w1)" by blast
  have l2': "length (h_out w2) = length (h_out w)" using l2 by (simp add: emit_def)
  let ?w3 = "emit [WriteBuffer Mem_d_out n, Print ''CSR Vector Kernel''] w2"
  have h3: "n \<le> int (length (h_out ?w3))" using l2' assms(2) by (simp add: emit_def)
  from vectorLocalWorkSize_returns [OF assms(5)]
  obtain l where lws: "vectorLocalWorkSize (VECTOR_SIZE dev) (BLOCK_SIZE dev)
      (max_work_group_size dev) (VECTOR_SIZE dev) = Some l" by blast
  from runPasses_returns [OF assms(1) h3 assms(3) out]
  obtain vd w4 where r2: "runPasses dev Kernel_csrVector (n * int (VECTOR_SIZE dev)) l
      (pre @ ''CSR-Vector-SP'') (nnz, n) n ref 0 ?w3 = Some (vd, w4)"
    and l4: "length (h_out w4) = length (h_out ?w3)" by blast
  have l4': "length (h_out w4) = length (h_out w)" using l4 l2' by (simp add: emit_def)
  show ?thesis
    unfolding csrTest_def Let_def pre_def [symmetric]
    using True r1 r2 lws l2' l4' by (simp add: emit_def)
qed

lemma ellPackTest_returns:
  assumes "0 \<le> n" and "n \<le> ps" and "n + 1 \<le> int (length rd)" and "sorted rd"
    and "\<forall>i. i < nat n \<longrightarrow> (rd ! Suc i - rd ! i) * (if padded then ps else n) \<le> INT_MAX"
    and "n \<le> int (length (h_out w))" and "n \<le> int (length ref)"
    and "\<forall>nm k. n \<le> int (length (device_output dev nm k))"
  shows "\<exists>w'. ellPackTest dev rd n nnz ref padded ps w = Some w'"
proof (cases "build_succeeds dev")
  case False
  then show ?thesis by (simp add: ellPackTest_def)
next
  case True
  from ellPackSetup_correct [OF assms(1-5)]
  obtain h where h: "ellPackSetup rd n padded ps = Some h" by blast
  define nm where "nm = (if padded then ''Padded_'' else []) @ ''ELLPACKR-SP''"
  let ?w1 = "emit (ellPackTest_setup h n ps) w"
  have out: "\<forall>k. n \<le> int (length (device_output dev nm k))"
    using assms(8) by blast
  have h1: "n \<le> int (length (h_out ?w1))" using assms(6) by (simp add: emit_def)
  from runPasses_returns [OF assms(1) h1 assms(7) out]
  obtain fd w2 where "runPasses dev Kernel_ellpackr (cmSize h) (BLOCK_SIZE dev) nm
      (nnz, cmSize h) n ref 0 ?w1 = Some (fd, w2)" by blast
  then show ?thesis
    unfolding ellPackTest_def nm_def using True h by simp
qed

lemma paddedSize_greater:
  assumes "0 \<le> n" and "0 < PAD" and "n + PAD \<le> INT_MAX"
  shows "n < paddedSize PAD n"
proof -
  have sm: "n smod PAD = n mod PAD"
    using assms(1,2) by (cases "n = 0") (simp_all add: smod_int_alt_def)
  have md: "n mod PAD < PAD" "0 \<le> n mod PAD" using assms(2) by simp_all
  have lo: "INT_MIN \<le> PAD - n mod PAD" "INT_MIN \<le> n + (PAD - n mod PAD)"
    unfolding INT_MIN_def using md assms(1) by linarith+
  have hi: "PAD - n mod PAD \<le> INT_MAX" "n + (PAD - n mod PAD) \<le> INT_MAX"
    using md assms by linarith+
  have inner: "int32 (PAD - n mod PAD) = PAD - n mod PAD"
    using lo(1) hi(1) by (rule int32_id)
  have outer: "int32 (n + (PAD - n mod PAD)) = n + (PAD - n mod PAD)"
    using lo(2) hi(2) by (rule int32_id)
  have "paddedSize PAD n = n + (PAD - n mod PAD)"
    by (simp add: paddedSize_def sm inner outer)
  then show ?thesis using md by linarith
qed

lemma CSR_row_length_bound:
  assumes "CSR_invariant h_val h_cols rd n c" and "i < nat n"
  shows "0 \<le> rd ! Suc i - rd ! i" and "rd ! Suc i - rd ! i \<le> int (length h_val)"
proof -
  have n0: "0 \<le> n" and rdlen: "int (length rd) = n + 1" and srt: "sorted rd"
    and first: "rd ! 0 = 0" and last: "rd ! nat n = int (length h_val)"
    using assms(1) by (simp_all add: CSR_invariant_def idx_def)
  have len: "Suc i < length rd" "nat n < length rd" using assms(2) rdlen by linarith+
  have "rd ! i \<le> rd ! Suc i" using srt len(1) by (simp add: sorted_nth_mono)
  then show "0 \<le> rd ! Suc i - rd ! i" by simp
  have "rd ! 0 \<le> rd ! i" using srt len(1) by (simp add: sorted_nth_mono)
  moreover have "rd ! Suc i \<le> rd ! nat n"
    using srt len(2) assms(2) by (intro sorted_nth_mono) simp_all
  ultimately show "rd ! Suc i - rd ! i \<le> int (length h_val)" using first last by simp
qed

lemma RunTest_returns:
  assumes "CSR_invariant h_val h_cols rd n (int (length h_vec))"
    and "0 < PAD" and "0 < VECTOR_SIZE dev"
    and "\<forall>nm k. n \<le> int (length (device_output dev nm k))"
    and "n + PAD \<le> INT_MAX" and "int (length h_val) * n \<le> INT_MAX"
  shows "\<exists>w. RunTest dev PAD h_val h_cols rd h_vec nItems n nItemsPadded g = Some w"
proof -
  have n0: "0 \<le> n" and rdlen: "int (length rd) = n + 1" and srt: "sorted rd"
    using assms(1) by (simp_all add: CSR_invariant_def)
  have "n \<le> int (length (replicate (nat n) g))" using n0 by simp
  from spmvRows_correct [OF assms(1) order_refl n0 this]
  obtain ref where ref: "spmvCpu h_val h_cols rd h_vec n (replicate (nat n) g) = Some ref"
    and "length ref = length (replicate (nat n) g)"
    unfolding spmvCpu_def by blast
  then have rlen: "n \<le> int (length ref)" using n0 by simp
  have ps: "n \<le> paddedSize PAD n" using paddedSize_greater [OF n0 assms(2,5)] by simp
  have prod: "\<forall>i. i < nat n \<longrightarrow>
      (rd ! Suc i - rd ! i) * (if False then paddedSize PAD n else n) \<le> INT_MAX"
  proof (intro allI impI)
    fix i assume i: "i < nat n"
    have "(rd ! Suc i - rd ! i) * n \<le> int (length h_val) * n"
      using CSR_row_length_bound(2) [OF assms(1) i] n0 by (intro mult_right_mono)
    with assms(6) show "(rd ! Suc i - rd ! i) * (if False then paddedSize PAD n else n) \<le> INT_MAX"
      by simp
  qed
  let ?w0 = "\<lparr>trace = [Create Host_h_vec n, Create Host_refOut n,
      Create Host_h_rowDelimitersPad (n + 1), Create Host_h_out (paddedSize PAD n)],
    h_out = replicate (nat (paddedSize PAD n)) g\<rparr>"
  let ?wa = "emit [Print ''CSR Test''] ?w0"
  have ha: "n \<le> int (length (h_out ?wa))" using ps n0 by (simp add: emit_def)
  from csrTest_returns [OF n0 ha rlen assms(4,3)]
  obtain w1 where c1: "csrTest dev n nItems ref False ?wa = Some w1"
    and l1: "length (h_out w1) = length (h_out ?wa)" by blast
  let ?wb = "emit [Print ''CSR Test -- Padded Data''] w1"
  have hb: "n \<le> int (length (h_out ?wb))" using ha l1 by (simp add: emit_def)
  from csrTest_returns [OF n0 hb rlen assms(4,3)]
  obtain w2 where c2: "csrTest dev n nItemsPadded ref True ?wb = Some w2"
    and l2: "length (h_out w2) = length (h_out ?wb)" by blast
  let ?wc = "emit [Print ''ELLPACKR Test''] w2"
  have hc: "n \<le> int (length (h_out ?wc))" using hb l2 by (simp add: emit_def)
  have rd1: "n + 1 \<le> int (length rd)" using rdlen by simp
  from ellPackTest_returns [OF n0 ps rd1 srt prod hc rlen assms(4)]
  obtain w3 where c3: "ellPackTest dev rd n nItems ref False (paddedSize PAD n) ?wc = Some w3"
    by blast
  have "new_array n = Some (replicate (nat n) (None :: fp option))"
    "new_array (paddedSize PAD n) = Some (replicate (nat (paddedSize PAD n)) (None :: fp option))"
    using n0 ps by (simp_all add: new_array_def)
  then show ?thesis
    unfolding RunTest_def Let_def using ref c1 c2 c3 by simp
qed

lemma csr_event_no_heading: "csr_event n nnz v e \<Longrightarrow> no_heading e"
  by (cases e) auto

lemma test_name_unique:
  assumes "t \<in> set test_names" and "t' \<in> set test_names"
  shows "t = t' @ ''_PCIe'' \<longleftrightarrow> False" and "t @ ''_PCIe'' = t' @ ''_PCIe'' \<longleftrightarrow> t = t'"
  using assms by (auto simp: test_names_def)

lemma justified_result:
  assumes "justified dev ref n (AddResult name a u p)"
    and "t \<in> set test_names" and "name = t \<or> name = t @ ''_PCIe''"
    and "0 \<le> k" and "k \<le> p"
  shows "verified dev ref n t k"
proof -
  from assms(1) obtain t' where t': "t' \<in> set test_names" "name = t' \<or> name = t' @ ''_PCIe''"
    "\<forall>q. 0 \<le> q \<and> q \<le> p \<longrightarrow> verified dev ref n t' q"
    by auto
  have "t' = t"
    using assms(3) t'(2) test_name_unique [OF assms(2) t'(1)] test_name_unique [OF t'(1) assms(2)]
    by auto
  with t'(3) assms(4,5) show ?thesis by blast
qed

text \<open>The shape of the events of a pass loop.\<close>

lemma pass_events_passed:
  "pass_events dev kern g l n k True @
     [AddResult nm atts ''Gflop/s'' k, AddResult (nm @ ''_PCIe'') atts ''Gflop/s'' k] =
   verified_pass dev kern g l nm atts n k"
  by (simp add: pass_events_def verified_pass_def verifyResults_message_def)

lemma pass_events_failed:
  "pass_events dev kern g l n k False =
     (replicate (nat (option_iterations dev)) (NDRangeKernel kern g l) @
      [ReadBuffer Mem_d_out n, VerifyResults n k]) @ [Print ''---FAILED---'']"
  by (simp add: pass_events_def verifyResults_message_def)

lemma verified_pass_no_failure:
  "Print ''---FAILED---'' \<notin> set (verified_pass dev kern g l nm atts n k)"
  by (simp add: verified_pass_def)

lemma not_in_butlast_append:
  "x \<notin> set xs \<Longrightarrow> x \<notin> set (butlast ys) \<Longrightarrow> x \<notin> set (butlast (xs @ ys))"
  by (auto simp: butlast_append dest: in_set_butlastD)

lemma runPasses_failure:
  "runPasses dev kern g l nm atts n ref i w = Some (fin, w') \<Longrightarrow>
   \<exists>evs. trace w' = trace w @ evs \<and> Print ''---FAILED---'' \<notin> set (butlast evs) \<and>
     (fin \<longrightarrow> Print ''---FAILED---'' \<notin> set evs \<and>
        (\<forall>q. i \<le> q \<and> q < option_passes dev \<longrightarrow> verified dev ref n nm q)) \<and>
     (\<not> fin \<longrightarrow> evs \<noteq> [] \<and> last evs = Print ''---FAILED---'')"
proof (induction dev kern g l nm atts n ref i w rule: runPasses.induct)
  case (1 dev kern g l nm atts n ref i w)
  let ?F = "Print ''---FAILED---''"
  show ?case
  proof (cases "i < option_passes dev")
    case False
    with "1.prems" have "(fin, w') = (True, w)" by (subst (asm) runPasses.simps) simp
    then have fw: "fin" "w' = w" by simp_all
    have "\<forall>q. \<not> (i \<le> q \<and> q < option_passes dev)" using False by auto
    then have "trace w' = trace w @ [] \<and> ?F \<notin> set (butlast []) \<and>
      (fin \<longrightarrow> ?F \<notin> set [] \<and> (\<forall>q. i \<le> q \<and> q < option_passes dev \<longrightarrow> verified dev ref n nm q)) \<and>
      (\<not> fin \<longrightarrow> [] \<noteq> [] \<and> last [] = ?F)"
      using fw by auto
    then show ?thesis by blast
  next
    case True
    from "1.prems" True obtain out where
      rb: "readBuffer n (device_output dev nm i) (h_out w) = Some out"
      by (subst (asm) runPasses.simps) (auto split: option.splits)
    from "1.prems" True rb obtain passed where
      vr: "verifyResults ref out n i = Some passed"
      by (subst (asm) runPasses.simps) (auto split: option.splits)
    let ?pe = "pass_events dev kern g l n i passed"
    show ?thesis
    proof (cases passed)
      case False
      with "1.prems" True rb vr have "(fin, w') = (False, emit ?pe (w\<lparr>h_out := out\<rparr>))"
        by (subst (asm) runPasses.simps) simp
      then have fw: "\<not> fin" "trace w' = trace w @ ?pe" by (simp_all add: emit_def)
      have pf: "passed = False" using False by simp
      have "?F \<notin> set (butlast ?pe)" "?pe \<noteq> []" "last ?pe = ?F"
        by (simp_all add: pf pass_events_failed butlast_append)
      with fw show ?thesis by blast
    next
      case passed: True
      let ?vp = "verified_pass dev kern g l nm atts n i"
      let ?w1 = "emit (?pe @ [AddResult nm atts ''Gflop/s'' i, AddResult (nm @ ''_PCIe'') atts ''Gflop/s'' i])
          (w\<lparr>h_out := out\<rparr>)"
      have rec: "runPasses dev kern g l nm atts n ref (i + 1) ?w1 = Some (fin, w')"
        using "1.prems" True rb vr passed by (subst (asm) runPasses.simps) simp
      have t1: "trace ?w1 = trace w @ ?vp"
        using pass_events_passed [of dev kern g l n i nm atts] passed by (simp add: emit_def)
      have vi: "verified dev ref n nm i"
        using vr passed verifyResults_readBuffer [OF rb] by (simp add: verified_def)
      have np: "\<not> \<not> passed" using passed by simp
      from "1.IH" [OF True rb vr np rec]
      obtain evs where evs: "trace w' = trace ?w1 @ evs" "?F \<notin> set (butlast evs)"
        "fin \<longrightarrow> ?F \<notin> set evs \<and> (\<forall>q. i + 1 \<le> q \<and> q < option_passes dev \<longrightarrow> verified dev ref n nm q)"
        "\<not> fin \<longrightarrow> evs \<noteq> [] \<and> last evs = ?F"
        by blast
      have a: "trace w' = trace w @ (?vp @ evs)" using evs(1) t1 by simp
      have b: "?F \<notin> set (butlast (?vp @ evs))"
        using verified_pass_no_failure evs(2) by (rule not_in_butlast_append)
      have c: "?F \<notin> set (?vp @ evs) \<and>
          (\<forall>q. i \<le> q \<and> q < option_passes dev \<longrightarrow> verified dev ref n nm q)" if fin
      proof (intro conjI allI impI)
        show "?F \<notin> set (?vp @ evs)" using evs(3) that verified_pass_no_failure by simp
        fix q assume q: "i \<le> q \<and> q < option_passes dev"
        show "verified dev ref n nm q"
        proof (cases "q = i")
          case True
          then show ?thesis using vi by simp
        next
          case False
          then have "i + 1 \<le> q \<and> q < option_passes dev" using q by simp
          then show ?thesis using evs(3) that by blast
        qed
      qed
      have d: "?vp @ evs \<noteq> [] \<and> last (?vp @ evs) = ?F" if "\<not> fin"
        using evs(4) that by simp
      from a b c d show ?thesis by blast
    qed
  qed
qed

lemma runPasses_executes:
  "runPasses dev kern g l nm atts n ref i w = Some (fin, w') \<Longrightarrow>
   i \<le> p \<Longrightarrow> p < option_passes dev \<Longrightarrow>
   (\<forall>q. i \<le> q \<and> q \<le> p \<longrightarrow> verified dev ref n nm q) \<Longrightarrow>
   \<exists>a b. trace w' = trace w @ a @ verified_pass dev kern g l nm atts n p @ b"
proof (induction dev kern g l nm atts n ref i w rule: runPasses.induct)
  case (1 dev kern g l nm atts n ref i w)
  have True: "i < option_passes dev" using "1.prems"(2,3) by simp
  from "1.prems"(1) True obtain out where
    rb: "readBuffer n (device_output dev nm i) (h_out w) = Some out"
    by (subst (asm) runPasses.simps) (auto split: option.splits)
  from "1.prems"(1) True rb obtain passed where
    vr: "verifyResults ref out n i = Some passed"
    by (subst (asm) runPasses.simps) (auto split: option.splits)
  have "verified dev ref n nm i" using "1.prems"(2,4) by simp
  then have passed: passed
    using vr verifyResults_readBuffer [OF rb] by (simp add: verified_def)
  let ?pe = "pass_events dev kern g l n i passed"
  let ?vp = "verified_pass dev kern g l nm atts n i"
  let ?w1 = "emit (?pe @ [AddResult nm atts ''Gflop/s'' i, AddResult (nm @ ''_PCIe'') atts ''Gflop/s'' i])
      (w\<lparr>h_out := out\<rparr>)"
  have rec: "runPasses dev kern g l nm atts n ref (i + 1) ?w1 = Some (fin, w')"
    using "1.prems"(1) True rb vr passed by (subst (asm) runPasses.simps) simp
  have t1: "trace ?w1 = trace w @ ?vp"
    using pass_events_passed [of dev kern g l n i nm atts] passed by (simp add: emit_def)
  have np: "\<not> \<not> passed" using passed by simp
  show ?case
  proof (cases "p = i")
    case True
    from runPasses_failure [OF rec] obtain evs where "trace w' = trace ?w1 @ evs" by blast
    then have "trace w' = trace w @ [] @ verified_pass dev kern g l nm atts n p @ evs"
      using t1 True by simp
    then show ?thesis by blast
  next
    case False
    then have p1: "i + 1 \<le> p" using "1.prems"(2) by simp
    have hist: "\<forall>q. i + 1 \<le> q \<and> q \<le> p \<longrightarrow> verified dev ref n nm q"
      using "1.prems"(4) by simp
    from "1.IH" [OF True rb vr np rec p1 "1.prems"(3) hist]
    obtain a b where "trace w' = trace ?w1 @ a @ verified_pass dev kern g l nm atts n p @ b"
      by blast
    then have "trace w' = trace w @ (?vp @ a) @ verified_pass dev kern g l nm atts n p @ b"
      using t1 by simp
    then show ?thesis by blast
  qed
qed

text \<open>
  \<open>csrTest\<close> after a successful build: the scalar pass loop, and what follows it. If
  the scalar loop returns at a failed verification, nothing follows.
\<close>

lemma csrTest_tail:
  assumes "csrTest dev n nnz ref padded w = Some w'" and "build_succeeds dev"
  shows "\<exists>sd w2 rest.
    runPasses dev Kernel_csrScalar n (BLOCK_SIZE dev)
      ((if padded then ''Padded_'' else []) @ ''CSR-Scalar-SP'') (nnz, n) n ref 0
      (emit (csrTest_setup n nnz) w) = Some (sd, w2) \<and>
    trace w' = trace w2 @ rest \<and> (\<not> sd \<longrightarrow> rest = []) \<and>
    Print ''---FAILED---'' \<notin> set (butlast rest)"
proof -
  let ?F = "Print ''---FAILED---''"
  define pre where "pre = (if padded then ''Padded_'' else [])"
  let ?sc = "pre @ ''CSR-Scalar-SP''" and ?vc = "pre @ ''CSR-Vector-SP''"
  let ?w1 = "emit (csrTest_setup n nnz) w"
  from assms obtain sd w2 where
    r1: "runPasses dev Kernel_csrScalar n (BLOCK_SIZE dev) ?sc (nnz, n) n ref 0 ?w1 = Some (sd, w2)"
    and rest: "(if \<not> sd then Some w2
      else (let w3 = emit [WriteBuffer Mem_d_out n, Print ''CSR Vector Kernel''] w2 in
        if max_work_group_size dev < 32
        then Some (emit ([Print ''Warning: CSRVector requires a work group size >= 32'',
                          Print ''Skipping this kernel.''] @ csrTest_releases) w3)
        else vectorLocalWorkSize (VECTOR_SIZE dev) (BLOCK_SIZE dev) (max_work_group_size dev)
               (VECTOR_SIZE dev) \<bind>
             (\<lambda>l. runPasses dev Kernel_csrVector (n * int (VECTOR_SIZE dev)) l ?vc (nnz, n) n ref 0 w3 \<bind>
               (\<lambda>(vd, w4). if \<not> vd then Some w4 else Some (emit csrTest_releases w4))))) = Some w'"
    unfolding csrTest_def pre_def Let_def
    by (auto split: Option.bind_splits prod.splits if_splits)
  have fin: ?thesis if "trace w' = trace w2 @ es" "\<not> sd \<longrightarrow> es = []" "?F \<notin> set (butlast es)" for es
    using r1 that unfolding pre_def by blast
  have rel: "?F \<notin> set csrTest_releases" by (simp add: csrTest_releases_def)
  show ?thesis
  proof (cases sd)
    case False
    with rest have "w' = w2" by simp
    then have a: "trace w' = trace w2 @ []" by simp
    have b: "?F \<notin> set (butlast [])" by simp
    have c: "\<not> sd \<longrightarrow> [] = ([] :: event list)" by simp
    from a c b show ?thesis by (rule fin)
  next
    case sd: True
    let ?mid = "[WriteBuffer Mem_d_out n, Print ''CSR Vector Kernel'']"
    let ?w3 = "emit ?mid w2"
    have t3: "trace ?w3 = trace w2 @ ?mid" by (simp add: emit_def)
    have mid: "?F \<notin> set ?mid" by simp
    show ?thesis
    proof (cases "max_work_group_size dev < 32")
      case True
      let ?skip = "[Print ''Warning: CSRVector requires a work group size >= 32'',
                    Print ''Skipping this kernel.''] @ csrTest_releases"
      from rest sd True have "w' = emit ?skip ?w3" by (simp add: Let_def)
      then have a: "trace w' = trace w2 @ (?mid @ ?skip)" by (simp add: emit_def)
      have "?F \<notin> set (?mid @ ?skip)" using rel by simp
      then have b: "?F \<notin> set (butlast (?mid @ ?skip))" by (blast dest: in_set_butlastD)
      have c: "\<not> sd \<longrightarrow> ?mid @ ?skip = []" using sd by simp
      from a c b show ?thesis by (rule fin)
    next
      case False
      from rest sd False obtain l vd w4 where
        r2: "runPasses dev Kernel_csrVector (n * int (VECTOR_SIZE dev)) l ?vc (nnz, n) n ref 0 ?w3 = Some (vd, w4)"
        and last: "(if \<not> vd then Some w4 else Some (emit csrTest_releases w4)) = Some w'"
        by (auto simp: Let_def split: Option.bind_splits prod.splits)
      from runPasses_failure [OF r2] obtain evs2 where
        e2: "trace w4 = trace ?w3 @ evs2" "?F \<notin> set (butlast evs2)"
          "vd \<longrightarrow> ?F \<notin> set evs2"
        by blast
      have t4: "trace w4 = trace w2 @ (?mid @ evs2)" using e2(1) t3 by simp
      show ?thesis
      proof (cases vd)
        case False
        with last have "w' = w4" by simp
        then have a: "trace w' = trace w2 @ (?mid @ evs2)" using t4 by simp
        have b: "?F \<notin> set (butlast (?mid @ evs2))"
          using mid e2(2) by (rule not_in_butlast_append)
        have c: "\<not> sd \<longrightarrow> ?mid @ evs2 = []" using sd by simp
        from a c b show ?thesis by (rule fin)
      next
        case True
        with last have "w' = emit csrTest_releases w4" by simp
        then have a: "trace w' = trace w2 @ (?mid @ evs2 @ csrTest_releases)"
          using t4 by (simp add: emit_def)
        have "?F \<notin> set (?mid @ evs2 @ csrTest_releases)"
          using e2(3) True rel by simp
        then have b: "?F \<notin> set (butlast (?mid @ evs2 @ csrTest_releases))"
          by (blast dest: in_set_butlastD)
        have c: "\<not> sd \<longrightarrow> ?mid @ evs2 @ csrTest_releases = []" using sd by simp
        from a c b show ?thesis by (rule fin)
      qed
    qed
  qed
qed

text \<open>
  A test function whose run is the set-up, the events of the pass loop of its first
  kernel and a rest that is empty when that loop returns at a failed verification.
\<close>

lemma first_loop_run:
  assumes r: "runPasses dev kern g l nm atts n ref 0 w1 = Some (fin, w2)"
    and t1: "trace w1 = trace w @ initial" and t': "trace w' = trace w2 @ rest"
    and rest: "\<not> fin \<longrightarrow> rest = []" "Print ''---FAILED---'' \<notin> set (butlast rest)"
    and initial: "Print ''---FAILED---'' \<notin> set initial" "\<forall>name a u p. AddResult name a u p \<notin> set initial"
  shows "\<exists>run. trace w' = trace w @ run \<and> returns_at_failure run \<and>
    fails_fast dev ref n nm run \<and> executes dev ref n kern g l nm atts run"
proof -
  let ?F = "Print ''---FAILED---''"
  from runPasses_failure [OF r] obtain evs where
    e: "trace w2 = trace w1 @ evs" "?F \<notin> set (butlast evs)"
      "fin \<longrightarrow> ?F \<notin> set evs \<and> (\<forall>q. 0 \<le> q \<and> q < option_passes dev \<longrightarrow> verified dev ref n nm q)"
      "\<not> fin \<longrightarrow> evs \<noteq> [] \<and> last evs = ?F"
    by blast
  from runPasses_events0 [OF r] e(1) have pe: "list_all (pass_event dev kern g l nm atts n ref) evs"
    by auto
  define run where "run = initial @ evs @ rest"
  have tr: "trace w' = trace w @ run" using t' e(1) t1 by (simp add: run_def)
  have raf: "returns_at_failure run"
  proof (cases fin)
    case True
    then have "?F \<notin> set (initial @ evs)" using e(3) initial(1) by simp
    then have "?F \<notin> set (butlast ((initial @ evs) @ rest))"
      using rest(2) by (rule not_in_butlast_append)
    then show ?thesis by (simp add: returns_at_failure_def run_def)
  next
    case False
    then have "rest = []" using rest(1) by simp
    moreover have "?F \<notin> set (butlast (initial @ evs))"
      using initial(1) e(2) by (rule not_in_butlast_append)
    ultimately show ?thesis by (simp add: returns_at_failure_def run_def)
  qed
  have ff: "fails_fast dev ref n nm run"
    unfolding fails_fast_def
  proof (intro allI impI)
    fix k
    assume k: "0 \<le> k \<and> k < option_passes dev \<and>
      verifyResults ref (device_output dev nm k) n k = Some False"
    then have nv: "\<not> verified dev ref n nm k" by (simp add: verified_def)
    have nf: "\<not> fin" using e(3) k nv by blast
    then have r0: "rest = []" and ev: "evs \<noteq> []" "last evs = ?F" using rest(1) e(4) by simp_all
    have results: "(name = nm \<or> name = nm @ ''_PCIe'') \<and> p < k"
      if "AddResult name a u p \<in> set run" for name a u p
    proof -
      from that have "AddResult name a u p \<in> set evs"
        using initial(2) r0 by (simp add: run_def)
      with pe have pv: "pass_event dev kern g l nm atts n ref (AddResult name a u p)"
        unfolding list_all_iff by blast
      then have nm: "name = nm \<or> name = nm @ ''_PCIe''"
        and hist: "\<forall>q. 0 \<le> q \<and> q \<le> p \<longrightarrow> verified dev ref n nm q" by simp_all
      have "p < k"
      proof (rule ccontr)
        assume "\<not> p < k"
        then have "0 \<le> k \<and> k \<le> p" using k by simp
        with hist nv show False by blast
      qed
      with nm show ?thesis by simp
    qed
    have "run \<noteq> []" "last run = ?F" using ev r0 by (simp_all add: run_def)
    with results show "run \<noteq> [] \<and> last run = ?F \<and>
        (\<forall>name a u p. AddResult name a u p \<in> set run \<longrightarrow>
           (name = nm \<or> name = nm @ ''_PCIe'') \<and> p < k)"
      by blast
  qed
  have ex: "executes dev ref n kern g l nm atts run"
    unfolding executes_def
  proof (intro allI impI)
    fix p
    assume p: "0 \<le> p \<and> p < option_passes dev \<and>
      (\<forall>q. 0 \<le> q \<and> q \<le> p \<longrightarrow> verified dev ref n nm q)"
    then have p0: "0 \<le> p" and p1: "p < option_passes dev"
      and hist: "\<forall>q. 0 \<le> q \<and> q \<le> p \<longrightarrow> verified dev ref n nm q" by simp_all
    from runPasses_executes [OF r p0 p1 hist]
    obtain a b where "trace w2 = trace w1 @ a @ verified_pass dev kern g l nm atts n p @ b"
      by blast
    with e(1) have "evs = a @ verified_pass dev kern g l nm atts n p @ b" by simp
    then have "run = (initial @ a) @ verified_pass dev kern g l nm atts n p @ (b @ rest)"
      by (simp add: run_def)
    then show "\<exists>a b. run = a @ verified_pass dev kern g l nm atts n p @ b" by blast
  qed
  from tr raf ff ex show ?thesis by blast
qed

lemma csrTest_run:
  assumes "csrTest dev n nnz ref padded w = Some w'"
  shows "\<exists>run. trace w' = trace w @ run \<and> returns_at_failure run \<and>
    (build_succeeds dev \<longrightarrow>
       fails_fast dev ref n ((if padded then ''Padded_'' else []) @ ''CSR-Scalar-SP'') run \<and>
       executes dev ref n Kernel_csrScalar n (BLOCK_SIZE dev)
         ((if padded then ''Padded_'' else []) @ ''CSR-Scalar-SP'') (nnz, n) run)"
proof (cases "build_succeeds dev")
  case False
  with assms have "trace w' = trace w @ [Create Program 0, Print ''Retsize: '', Print ''Log: '']"
    by (auto simp: csrTest_def emit_def)
  moreover have "returns_at_failure [Create Program 0, Print ''Retsize: '', Print ''Log: '']"
    by (simp add: returns_at_failure_def)
  ultimately show ?thesis using False by blast
next
  case True
  from csrTest_tail [OF assms True] obtain sd w2 rest where
    r: "runPasses dev Kernel_csrScalar n (BLOCK_SIZE dev)
      ((if padded then ''Padded_'' else []) @ ''CSR-Scalar-SP'') (nnz, n) n ref 0
      (emit (csrTest_setup n nnz) w) = Some (sd, w2)"
    and t: "trace w' = trace w2 @ rest" and rest: "\<not> sd \<longrightarrow> rest = []"
      "Print ''---FAILED---'' \<notin> set (butlast rest)"
    by blast
  have t1: "trace (emit (csrTest_setup n nnz) w) = trace w @ csrTest_setup n nnz"
    by (simp add: emit_def)
  have initial: "Print ''---FAILED---'' \<notin> set (csrTest_setup n nnz)"
    "\<forall>name a u p. AddResult name a u p \<notin> set (csrTest_setup n nnz)"
    by (simp_all add: csrTest_setup_def)
  from first_loop_run [OF r t1 t rest initial] True show ?thesis by blast
qed

lemma ellPackSetup_cmSize:
  "ellPackSetup rd n padded ps = Some h \<Longrightarrow> cmSize h = (if padded then ps else n)"
  by (auto simp: ellPackSetup_def Let_def split: option.splits prod.splits)

lemma ellPackTest_run:
  assumes "ellPackTest dev rd n nnz ref False ps w = Some w'"
  shows "\<exists>run. trace w' = trace w @ run \<and> returns_at_failure run \<and>
    (build_succeeds dev \<longrightarrow>
       fails_fast dev ref n ''ELLPACKR-SP'' run \<and>
       executes dev ref n Kernel_ellpackr n (BLOCK_SIZE dev) ''ELLPACKR-SP'' (nnz, n) run)"
proof (cases "build_succeeds dev")
  case False
  with assms have "trace w' = trace w @ [Create Program 0, Print ''Retsize: '', Print ''Log: '']"
    by (auto simp: ellPackTest_def emit_def)
  moreover have "returns_at_failure [Create Program 0, Print ''Retsize: '', Print ''Log: '']"
    by (simp add: returns_at_failure_def)
  ultimately show ?thesis using False by blast
next
  case True
  let ?F = "Print ''---FAILED---''"
  from assms True obtain h fd w2 where
    h: "ellPackSetup rd n False ps = Some h"
    and r0: "runPasses dev Kernel_ellpackr (cmSize h) (BLOCK_SIZE dev) ''ELLPACKR-SP'' (nnz, cmSize h)
          n ref 0 (emit (ellPackTest_setup h n ps) w) = Some (fd, w2)"
    and last: "(if \<not> fd then Some w2 else Some (emit ellPackTest_releases w2)) = Some w'"
    unfolding ellPackTest_def
    by (auto split: Option.bind_splits prod.splits if_splits)
  have cm: "cmSize h = n" using ellPackSetup_cmSize [OF h] by simp
  have r: "runPasses dev Kernel_ellpackr n (BLOCK_SIZE dev) ''ELLPACKR-SP'' (nnz, n)
          n ref 0 (emit (ellPackTest_setup h n ps) w) = Some (fd, w2)"
    using r0 unfolding cm .
  have t1: "trace (emit (ellPackTest_setup h n ps) w) = trace w @ ellPackTest_setup h n ps"
    by (simp add: emit_def)
  have initial: "?F \<notin> set (ellPackTest_setup h n ps)"
    "\<forall>name a u p. AddResult name a u p \<notin> set (ellPackTest_setup h n ps)"
    by (simp_all add: ellPackTest_setup_def)
  define rest where "rest = (if fd then ellPackTest_releases else [])"
  have t: "trace w' = trace w2 @ rest"
    using last by (auto simp: rest_def emit_def split: if_splits)
  have "?F \<notin> set rest" by (simp add: rest_def ellPackTest_releases_def)
  then have rest: "\<not> fd \<longrightarrow> rest = []" "?F \<notin> set (butlast rest)"
    by (auto simp: rest_def dest: in_set_butlastD)
  from first_loop_run [OF r t1 t rest initial] True show ?thesis by blast
qed

text \<open>The three runs in the trace of \<open>RunTest\<close>.\<close>

lemma RunTest_runs:
  assumes "RunTest dev PAD h_val h_cols rd h_vec nItems n nItemsPadded g = Some w"
  shows "\<exists>ref run1 run2 run3.
    spmvCpu h_val h_cols rd h_vec n (replicate (nat n) g) = Some ref \<and>
    trace w =
      [Create Host_h_vec n, Create Host_refOut n, Create Host_h_rowDelimitersPad (n + 1),
       Create Host_h_out (paddedSize PAD n)] @
      [Print ''CSR Test''] @ run1 @
      [Print ''CSR Test -- Padded Data''] @ run2 @
      [Print ''ELLPACKR Test''] @ run3 @
      [Release Host_h_val, Release Host_h_valPad] \<and>
    list_all no_heading run1 \<and> list_all no_heading run2 \<and> list_all no_heading run3 \<and>
    list_all (justified dev ref n) (trace w) \<and>
    returns_at_failure run1 \<and> returns_at_failure run2 \<and> returns_at_failure run3 \<and>
    (build_succeeds dev \<longrightarrow>
       fails_fast dev ref n ''CSR-Scalar-SP'' run1 \<and>
       fails_fast dev ref n ''Padded_CSR-Scalar-SP'' run2 \<and>
       fails_fast dev ref n ''ELLPACKR-SP'' run3 \<and>
       executes dev ref n Kernel_csrScalar n (BLOCK_SIZE dev) ''CSR-Scalar-SP'' (nItems, n) run1 \<and>
       executes dev ref n Kernel_csrScalar n (BLOCK_SIZE dev) ''Padded_CSR-Scalar-SP''
         (nItemsPadded, n) run2 \<and>
       executes dev ref n Kernel_ellpackr n (BLOCK_SIZE dev) ''ELLPACKR-SP'' (nItems, n) run3)"
proof -
  let ?w0 = "\<lparr>trace = [Create Host_h_vec n, Create Host_refOut n,
      Create Host_h_rowDelimitersPad (n + 1), Create Host_h_out (paddedSize PAD n)],
    h_out = replicate (nat (paddedSize PAD n)) g\<rparr>"
  from assms obtain ref w1 w2 w3 where
    ref: "spmvCpu h_val h_cols rd h_vec n (replicate (nat n) g) = Some ref"
    and c1: "csrTest dev n nItems ref False (emit [Print ''CSR Test''] ?w0) = Some w1"
    and c2: "csrTest dev n nItemsPadded ref True (emit [Print ''CSR Test -- Padded Data''] w1) = Some w2"
    and c3: "ellPackTest dev rd n nItems ref False (paddedSize PAD n) (emit [Print ''ELLPACKR Test''] w2) = Some w3"
    and w: "w = emit [Release Host_h_val, Release Host_h_valPad] w3"
    unfolding RunTest_def Let_def
    by (auto split: Option.bind_splits)
  from csrTest_run [OF c1] obtain run1 where
    s1: "trace w1 = trace (emit [Print ''CSR Test''] ?w0) @ run1" "returns_at_failure run1"
      "build_succeeds dev \<longrightarrow> fails_fast dev ref n ''CSR-Scalar-SP'' run1 \<and>
         executes dev ref n Kernel_csrScalar n (BLOCK_SIZE dev) ''CSR-Scalar-SP'' (nItems, n) run1"
    by auto
  from csrTest_run [OF c2] obtain run2 where
    s2: "trace w2 = trace (emit [Print ''CSR Test -- Padded Data''] w1) @ run2" "returns_at_failure run2"
      "build_succeeds dev \<longrightarrow> fails_fast dev ref n ''Padded_CSR-Scalar-SP'' run2 \<and>
         executes dev ref n Kernel_csrScalar n (BLOCK_SIZE dev) ''Padded_CSR-Scalar-SP''
           (nItemsPadded, n) run2"
    by auto
  from ellPackTest_run [OF c3] obtain run3 where
    s3: "trace w3 = trace (emit [Print ''ELLPACKR Test''] w2) @ run3" "returns_at_failure run3"
      "build_succeeds dev \<longrightarrow> fails_fast dev ref n ''ELLPACKR-SP'' run3 \<and>
         executes dev ref n Kernel_ellpackr n (BLOCK_SIZE dev) ''ELLPACKR-SP'' (nItems, n) run3"
    by auto
  from csrTest_events [OF c1] obtain ev1 where
    v1: "trace w1 = trace (emit [Print ''CSR Test''] ?w0) @ Create Program 0 # ev1"
      "list_all (csr_event n nItems (VECTOR_SIZE dev)) ev1" "list_all (justified dev ref n) ev1"
    by blast
  have "list_all no_heading ev1"
    using v1(2) csr_event_no_heading unfolding list_all_iff by blast
  moreover have "run1 = Create Program 0 # ev1" using v1(1) s1(1) by simp
  ultimately have g1: "list_all no_heading run1" "list_all (justified dev ref n) run1"
    using v1(3) by simp_all
  from csrTest_events [OF c2] obtain ev2 where
    v2: "trace w2 = trace (emit [Print ''CSR Test -- Padded Data''] w1) @ Create Program 0 # ev2"
      "list_all (csr_event n nItemsPadded (VECTOR_SIZE dev)) ev2" "list_all (justified dev ref n) ev2"
    by blast
  have "list_all no_heading ev2"
    using v2(2) csr_event_no_heading unfolding list_all_iff by blast
  moreover have "run2 = Create Program 0 # ev2" using v2(1) s2(1) by simp
  ultimately have g2: "list_all no_heading run2" "list_all (justified dev ref n) run2"
    using v2(3) by simp_all
  from ellPackTest_events [OF c3] obtain ev3 where
    v3: "trace w3 = trace (emit [Print ''ELLPACKR Test''] w2) @ Create Program 0 # ev3"
      "list_all no_heading ev3" "list_all (justified dev ref n) ev3"
    by blast
  have "run3 = Create Program 0 # ev3" using v3(1) s3(1) by simp
  then have g3: "list_all no_heading run3" "list_all (justified dev ref n) run3"
    using v3(2,3) by simp_all
  have tr: "trace w =
      [Create Host_h_vec n, Create Host_refOut n, Create Host_h_rowDelimitersPad (n + 1),
       Create Host_h_out (paddedSize PAD n)] @
      [Print ''CSR Test''] @ run1 @
      [Print ''CSR Test -- Padded Data''] @ run2 @
      [Print ''ELLPACKR Test''] @ run3 @
      [Release Host_h_val, Release Host_h_valPad]"
    unfolding w using s1(1) s2(1) s3(1) by (simp add: emit_def)
  have all: "list_all (justified dev ref n) (trace w)"
    unfolding tr using g1(2) g2(2) g3(2) by simp
  from ref tr g1(1) g2(1) g3(1) all s1(2,3) s2(2,3) s3(2,3) show ?thesis by blast
qed

text \<open>
  C5. For a matrix that satisfies the CSR invariant, a positive pad factor and
  \<open>VECTOR_SIZE\<close>, sizes within the range of \<open>int\<close>, and a device whose output buffer
  holds at least \<open>numRows\<close> entries, \<open>RunTest\<close> returns, whatever the verifications
  find. Its trace consists of the three runs (the calls of \<open>csrTest\<close>, \<open>csrTest\<close> on the
  padded data, and \<open>ellPackTest\<close>), each after its heading. In each run:

  \<^item> a failed verification is the last event of the run: the test function returns
    at once, and nothing is launched, verified or recorded after it;

  \<^item> if the device output of pass \<open>k\<close> of the run's first kernel fails verification,
    the run ends with that failure line, and every result in the run is a result of
    that kernel for a pass before \<open>k\<close> (in a CSR run the vector kernel records
    nothing);

  \<^item> whatever happens in the other runs, every pass \<open>p\<close> of the run's first kernel
    such that the passes up to \<open>p\<close> pass verification is executed in full: its kernel
    launches, the read of the output, the verification and its two results are in the
    run.

  In the whole trace, no result of any of the five tests (the vector kernels
  included) is recorded for a pass \<open>k\<close> whose device output fails verification, or for
  a later pass of that test.
\<close>

theorem failed_verification_stops_reporting:
  assumes "CSR_invariant h_val h_cols h_rowDelimiters numRows (int (length h_vec))"
    and "0 < PAD_FACTOR" and "0 < VECTOR_SIZE dev"
    and "\<forall>name k. numRows \<le> int (length (device_output dev name k))"
    and "numRows + PAD_FACTOR \<le> INT_MAX" and "int (length h_val) * numRows \<le> INT_MAX"
  shows "\<exists>w refOut run1 run2 run3.
    RunTest dev PAD_FACTOR h_val h_cols h_rowDelimiters h_vec nItems numRows nItemsPadded garbage = Some w \<and>
    spmvCpu h_val h_cols h_rowDelimiters h_vec numRows (replicate (nat numRows) garbage) = Some refOut \<and>
    trace w =
      [Create Host_h_vec numRows, Create Host_refOut numRows,
       Create Host_h_rowDelimitersPad (numRows + 1),
       Create Host_h_out (paddedSize PAD_FACTOR numRows)] @
      [Print ''CSR Test''] @ run1 @
      [Print ''CSR Test -- Padded Data''] @ run2 @
      [Print ''ELLPACKR Test''] @ run3 @
      [Release Host_h_val, Release Host_h_valPad] \<and>
    list_all no_heading run1 \<and> list_all no_heading run2 \<and> list_all no_heading run3 \<and>
    returns_at_failure run1 \<and> returns_at_failure run2 \<and> returns_at_failure run3 \<and>
    (build_succeeds dev \<longrightarrow>
       fails_fast dev refOut numRows ''CSR-Scalar-SP'' run1 \<and>
       fails_fast dev refOut numRows ''Padded_CSR-Scalar-SP'' run2 \<and>
       fails_fast dev refOut numRows ''ELLPACKR-SP'' run3 \<and>
       executes dev refOut numRows Kernel_csrScalar numRows (BLOCK_SIZE dev) ''CSR-Scalar-SP''
         (nItems, numRows) run1 \<and>
       executes dev refOut numRows Kernel_csrScalar numRows (BLOCK_SIZE dev) ''Padded_CSR-Scalar-SP''
         (nItemsPadded, numRows) run2 \<and>
       executes dev refOut numRows Kernel_ellpackr numRows (BLOCK_SIZE dev) ''ELLPACKR-SP''
         (nItems, numRows) run3) \<and>
    (\<forall>testName k a u p.
       testName \<in> set test_names \<and> 0 \<le> k \<and>
       verifyResults refOut (device_output dev testName k) numRows k = Some False \<and>
       (AddResult testName a u p \<in> set (trace w) \<or>
        AddResult (testName @ ''_PCIe'') a u p \<in> set (trace w))
       \<longrightarrow> p < k)"
proof -
  from RunTest_returns [OF assms]
  obtain w where run: "RunTest dev PAD_FACTOR h_val h_cols h_rowDelimiters h_vec nItems numRows
      nItemsPadded garbage = Some w" by blast
  from RunTest_runs [OF run]
  obtain ref run1 run2 run3 where
    ref: "spmvCpu h_val h_cols h_rowDelimiters h_vec numRows (replicate (nat numRows) garbage) = Some ref"
    and tr: "trace w =
      [Create Host_h_vec numRows, Create Host_refOut numRows,
       Create Host_h_rowDelimitersPad (numRows + 1),
       Create Host_h_out (paddedSize PAD_FACTOR numRows)] @
      [Print ''CSR Test''] @ run1 @
      [Print ''CSR Test -- Padded Data''] @ run2 @
      [Print ''ELLPACKR Test''] @ run3 @
      [Release Host_h_val, Release Host_h_valPad]"
    and nh: "list_all no_heading run1" "list_all no_heading run2" "list_all no_heading run3"
    and all: "list_all (justified dev ref numRows) (trace w)"
    and raf: "returns_at_failure run1" "returns_at_failure run2" "returns_at_failure run3"
    and runs: "build_succeeds dev \<longrightarrow>
       fails_fast dev ref numRows ''CSR-Scalar-SP'' run1 \<and>
       fails_fast dev ref numRows ''Padded_CSR-Scalar-SP'' run2 \<and>
       fails_fast dev ref numRows ''ELLPACKR-SP'' run3 \<and>
       executes dev ref numRows Kernel_csrScalar numRows (BLOCK_SIZE dev) ''CSR-Scalar-SP''
         (nItems, numRows) run1 \<and>
       executes dev ref numRows Kernel_csrScalar numRows (BLOCK_SIZE dev) ''Padded_CSR-Scalar-SP''
         (nItemsPadded, numRows) run2 \<and>
       executes dev ref numRows Kernel_ellpackr numRows (BLOCK_SIZE dev) ''ELLPACKR-SP''
         (nItems, numRows) run3"
    by blast
  have "p < k"
    if t: "testName \<in> set test_names" and k: "0 \<le> k"
      and f: "verifyResults ref (device_output dev testName k) numRows k = Some False"
      and m: "AddResult testName a u p \<in> set (trace w) \<or>
              AddResult (testName @ ''_PCIe'') a u p \<in> set (trace w)"
    for testName k a u p
  proof (rule ccontr)
    assume "\<not> p < k"
    then have kp: "k \<le> p" by simp
    from m obtain name where name: "name = testName \<or> name = testName @ ''_PCIe''"
      and mem: "AddResult name a u p \<in> set (trace w)" by blast
    from all mem have "justified dev ref numRows (AddResult name a u p)"
      unfolding list_all_iff by blast
    from justified_result [OF this t name k kp] f show False
      by (simp add: verified_def)
  qed
  then have "\<forall>testName k a u p.
       testName \<in> set test_names \<and> 0 \<le> k \<and>
       verifyResults ref (device_output dev testName k) numRows k = Some False \<and>
       (AddResult testName a u p \<in> set (trace w) \<or>
        AddResult (testName @ ''_PCIe'') a u p \<in> set (trace w))
       \<longrightarrow> p < k"
    by blast
  with run ref tr nh raf runs show ?thesis by blast
qed

text \<open>
  A run in which the unpadded CSR scalar kernel and the ELLPACKR kernel fail
  verification in pass 1: each has its result of pass 0 and none of pass 1, and the
  unpadded CSR run records nothing for its vector kernel. The padded CSR run between
  them has the results of both passes of both kernels; the two launches of the vector
  kernel in the trace are its own.
\<close>

theorem failed_verification_stops_reporting_witness:
  "CSR_invariant [Fin 2] [0] [0, 1] 1 (int (length [Fin 3])) \<and>
   (0::int) < 2 \<and> 0 < VECTOR_SIZE example_backend \<and>
   (\<forall>name k. 1 \<le> int (length (device_output example_backend name k))) \<and>
   (1::int) + 2 \<le> INT_MAX \<and> int (length [Fin 2]) * 1 \<le> INT_MAX \<and>
   verifyResults [Fin 6] (device_output example_backend ''CSR-Scalar-SP'' 1) 1 1 = Some False \<and>
   (\<exists>w. RunTest example_backend 2 [Fin 2] [0] [0, 1] [Fin 3] 1 1 1 NaN = Some w \<and>
      AddResult ''CSR-Scalar-SP'' (1, 1) ''Gflop/s'' 0 \<in> set (trace w) \<and>
      AddResult ''CSR-Scalar-SP'' (1, 1) ''Gflop/s'' 1 \<notin> set (trace w) \<and>
      AddResult ''CSR-Vector-SP'' (1, 1) ''Gflop/s'' 0 \<notin> set (trace w) \<and>
      AddResult ''Padded_CSR-Scalar-SP'' (1, 1) ''Gflop/s'' 1 \<in> set (trace w) \<and>
      AddResult ''Padded_CSR-Vector-SP'' (1, 1) ''Gflop/s'' 1 \<in> set (trace w) \<and>
      length (filter (\<lambda>e. e = NDRangeKernel Kernel_csrVector 32 64) (trace w)) = 2 \<and>
      length (filter (\<lambda>e. e = Print ''---FAILED---'') (trace w)) = 2 \<and>
      AddResult ''ELLPACKR-SP'' (1, 1) ''Gflop/s'' 0 \<in> set (trace w) \<and>
      AddResult ''ELLPACKR-SP'' (1, 1) ''Gflop/s'' 1 \<notin> set (trace w))"
proof -
  have inv: "CSR_invariant [Fin 2] [0] [0, 1] 1 (int (length [Fin 3]))"
    by (simp add: CSR_invariant_def idx_def)
  have pad: "(0::int) < 2" by simp
  have vs: "0 < VECTOR_SIZE example_backend" by (simp add: example_backend_def)
  have out: "\<forall>name k. 1 \<le> int (length (device_output example_backend name k))"
    by (simp add: example_backend_def)
  have b1: "(1::int) + 2 \<le> INT_MAX" by (simp add: INT_MAX_def)
  have b2: "int (length [Fin 2]) * 1 \<le> INT_MAX" by (simp add: INT_MAX_def)
  have f1: "verifyResults [Fin 6] (device_output example_backend ''CSR-Scalar-SP'' 1) 1 1 = Some False"
    by code_simp
  from failed_verification_stops_reporting [OF inv pad vs out b1 b2, of 1 1 NaN]
  obtain w where
    run: "RunTest example_backend 2 [Fin 2] [0] [0, 1] [Fin 3] 1 1 1 NaN = Some w"
    by blast
  have "case RunTest example_backend 2 [Fin 2] [0] [0, 1] [Fin 3] 1 1 1 NaN of
      None \<Rightarrow> False
    | Some w \<Rightarrow> AddResult ''CSR-Scalar-SP'' (1, 1) ''Gflop/s'' 0 \<in> set (trace w) \<and>
        AddResult ''CSR-Scalar-SP'' (1, 1) ''Gflop/s'' 1 \<notin> set (trace w) \<and>
        AddResult ''CSR-Vector-SP'' (1, 1) ''Gflop/s'' 0 \<notin> set (trace w) \<and>
        AddResult ''Padded_CSR-Scalar-SP'' (1, 1) ''Gflop/s'' 1 \<in> set (trace w) \<and>
        AddResult ''Padded_CSR-Vector-SP'' (1, 1) ''Gflop/s'' 1 \<in> set (trace w) \<and>
        length (filter (\<lambda>e. e = NDRangeKernel Kernel_csrVector 32 64) (trace w)) = 2 \<and>
        length (filter (\<lambda>e. e = Print ''---FAILED---'') (trace w)) = 2 \<and>
        AddResult ''ELLPACKR-SP'' (1, 1) ''Gflop/s'' 0 \<in> set (trace w) \<and>
        AddResult ''ELLPACKR-SP'' (1, 1) ''Gflop/s'' 1 \<notin> set (trace w)"
    by code_simp
  with run have "AddResult ''CSR-Scalar-SP'' (1, 1) ''Gflop/s'' 0 \<in> set (trace w) \<and>
        AddResult ''CSR-Scalar-SP'' (1, 1) ''Gflop/s'' 1 \<notin> set (trace w) \<and>
        AddResult ''CSR-Vector-SP'' (1, 1) ''Gflop/s'' 0 \<notin> set (trace w) \<and>
        AddResult ''Padded_CSR-Scalar-SP'' (1, 1) ''Gflop/s'' 1 \<in> set (trace w) \<and>
        AddResult ''Padded_CSR-Vector-SP'' (1, 1) ''Gflop/s'' 1 \<in> set (trace w) \<and>
        length (filter (\<lambda>e. e = NDRangeKernel Kernel_csrVector 32 64) (trace w)) = 2 \<and>
        length (filter (\<lambda>e. e = Print ''---FAILED---'') (trace w)) = 2 \<and>
        AddResult ''ELLPACKR-SP'' (1, 1) ''Gflop/s'' 0 \<in> set (trace w) \<and>
        AddResult ''ELLPACKR-SP'' (1, 1) ''Gflop/s'' 1 \<notin> set (trace w)"
    by simp
  with inv pad vs out b1 b2 f1 run show ?thesis by blast
qed

text \<open>
  C6. The claim fails on the code. When verification fails, \<open>csrTest\<close> and
  \<open>ellPackTest\<close> return at once and release nothing: the program object, the device
  buffers, the kernels and the host arrays stay allocated. The exit of \<open>csrTest\<close> that
  skips the vector kernel (work-group size below 32) does release everything, and so
  does its normal exit.
\<close>

theorem failed_verification_leaks_resources:
  "unreleased (csrTest example_backend 1 1 [Fin 6] False fresh_world) =
     Some [Program, Mem_d_val, Mem_d_cols, Mem_d_vec, Mem_d_out, Mem_d_rowDelimiters,
           Kernel_csrScalar, Kernel_csrVector] \<and>
   unreleased (ellPackTest example_backend [0, 1] 1 1 [Fin 6] False 2 fresh_world) =
     Some [Program, Host_h_rowLengths, Host_h_valcm, Host_h_colscm, Mem_d_val, Mem_d_cols,
           Mem_d_vec, Mem_d_out, Mem_d_rowLengths, Kernel_ellpackr] \<and>
   unreleased (csrTest small_group_backend 1 1 [Fin 6] False fresh_world) = Some [] \<and>
   unreleased (csrTest example_backend 1 1 [Fin 6] True fresh_world) = Some []"
  by code_simp

text \<open>
  C10. In the trace of \<open>RunTest\<close> the row-delimiter array of the padded matrix is
  allocated with \<open>numRows + 1\<close> entries, and the events of the padded CSR run (those
  between its heading and the next) have the sizes of a CSR run with \<open>numRows\<close> rows
  and \<open>nItemsPadded\<close> entries: the scalar kernel is launched with global size
  \<open>numRows\<close>, \<open>numRows\<close> elements are read back and verified. The unpadded run has the
  sizes of a CSR run with \<open>numRows\<close> rows and \<open>nItems\<close> entries.
\<close>

theorem padded_csr_run_uses_numRows:
  assumes "RunTest dev PAD_FACTOR h_val h_cols h_rowDelimiters h_vec nItems numRows nItemsPadded garbage = Some w"
  shows "\<exists>before unpadded_run padded_run after.
    trace w = before @ [Print ''CSR Test''] @ unpadded_run @
      [Print ''CSR Test -- Padded Data''] @ padded_run @ [Print ''ELLPACKR Test''] @ after \<and>
    Create Host_h_rowDelimitersPad (numRows + 1) \<in> set before \<and>
    list_all no_heading before \<and>
    list_all (csr_event numRows nItems (VECTOR_SIZE dev)) unpadded_run \<and>
    list_all (csr_event numRows nItemsPadded (VECTOR_SIZE dev)) padded_run"
proof -
  from RunTest_trace [OF assms]
  obtain e1 e2 e3 where
    tr: "trace w =
      [Create Host_h_vec numRows, Create Host_refOut numRows,
       Create Host_h_rowDelimitersPad (numRows + 1),
       Create Host_h_out (paddedSize PAD_FACTOR numRows)] @
      [Print ''CSR Test'', Create Program 0] @ e1 @
      [Print ''CSR Test -- Padded Data'', Create Program 0] @ e2 @
      [Print ''ELLPACKR Test'', Create Program 0] @ e3 @
      [Release Host_h_val, Release Host_h_valPad]"
    and ev: "list_all (csr_event numRows nItems (VECTOR_SIZE dev)) e1"
      "list_all (csr_event numRows nItemsPadded (VECTOR_SIZE dev)) e2"
    by blast
  let ?before = "[Create Host_h_vec numRows, Create Host_refOut numRows,
       Create Host_h_rowDelimitersPad (numRows + 1),
       Create Host_h_out (paddedSize PAD_FACTOR numRows)]"
  let ?after = "Create Program 0 # e3 @ [Release Host_h_val, Release Host_h_valPad]"
  have "trace w = ?before @ [Print ''CSR Test''] @ (Create Program 0 # e1) @
      [Print ''CSR Test -- Padded Data''] @ (Create Program 0 # e2) @ [Print ''ELLPACKR Test''] @ ?after"
    unfolding tr by simp
  moreover have "Create Host_h_rowDelimitersPad (numRows + 1) \<in> set ?before" by simp
  moreover have "list_all no_heading ?before" by simp
  moreover have "list_all (csr_event numRows nItems (VECTOR_SIZE dev)) (Create Program 0 # e1)"
    using ev(1) by simp
  moreover have "list_all (csr_event numRows nItemsPadded (VECTOR_SIZE dev)) (Create Program 0 # e2)"
    using ev(2) by simp
  ultimately show ?thesis by blast
qed

theorem padded_csr_run_uses_numRows_witness:
  "\<exists>w. RunTest example_backend 2 [Fin 2] [0] [0, 1] [Fin 3] 1 1 5 NaN = Some w \<and>
     (\<exists>before unpadded_run padded_run after.
        trace w = before @ [Print ''CSR Test''] @ unpadded_run @
          [Print ''CSR Test -- Padded Data''] @ padded_run @ [Print ''ELLPACKR Test''] @ after \<and>
        Create Host_h_rowDelimitersPad (1 + 1) \<in> set before \<and>
        list_all no_heading before \<and>
        list_all (csr_event 1 1 (VECTOR_SIZE example_backend)) unpadded_run \<and>
        list_all (csr_event 1 5 (VECTOR_SIZE example_backend)) padded_run) \<and>
     NDRangeKernel Kernel_csrScalar 1 128 \<in> set (trace w) \<and>
     AddResult ''Padded_CSR-Scalar-SP'' (5, 1) ''Gflop/s'' 0 \<in> set (trace w)"
proof -
  have "case RunTest example_backend 2 [Fin 2] [0] [0, 1] [Fin 3] 1 1 5 NaN of
      None \<Rightarrow> False
    | Some w \<Rightarrow> NDRangeKernel Kernel_csrScalar 1 128 \<in> set (trace w) \<and>
        AddResult ''Padded_CSR-Scalar-SP'' (5, 1) ''Gflop/s'' 0 \<in> set (trace w)"
    by code_simp
  then obtain w where run: "RunTest example_backend 2 [Fin 2] [0] [0, 1] [Fin 3] 1 1 5 NaN = Some w"
    and y: "NDRangeKernel Kernel_csrScalar 1 128 \<in> set (trace w)"
      "AddResult ''Padded_CSR-Scalar-SP'' (5, 1) ''Gflop/s'' 0 \<in> set (trace w)"
    by (auto split: option.splits)
  from padded_csr_run_uses_numRows [OF run] run y show ?thesis by blast
qed

end
